theory Spec2Isabelle
  imports Main
begin

section \<open>Strings and characters\<close>

text \<open>
  The program is Python 3: a \<open>str\<close> is a sequence of Unicode code points. Here a string
  is a \<^typ>\<open>string\<close> whose characters stand for the code points 0 to 255 (ASCII and
  Latin-1), which covers the text a device CLI prints. The character classes below are
  what Python's \<open>str\<close> methods and the \<open>re\<close> module use on that range. Python's integers
  are unbounded; the limit CPython puts on the number of digits that \<open>int()\<close> converts
  (4300 by default) is not modelled.
\<close>

datatype py_error = ValueError | OverflowError | KeyError

definition is_digit :: "char \<Rightarrow> bool" where
  \<comment> \<open>\<open>\d\<close>: the decimal digits; below code point 256 these are \<open>0\<close> to \<open>9\<close>\<close>
  "is_digit c = (c \<in> set ''0123456789'')"

definition is_alpha :: "char \<Rightarrow> bool" where
  \<comment> \<open>the class \<open>[A-Za-z]\<close>\<close>
  "is_alpha c = (c \<in> set ''ABCDEFGHIJKLMNOPQRSTUVWXYZabcdefghijklmnopqrstuvwxyz'')"

definition is_space :: "char \<Rightarrow> bool" where
  \<comment> \<open>\<open>\s\<close> and \<open>str.isspace\<close>: tab, LF, VT, FF, CR, FS, GS, RS, US, space, NEL, NBSP\<close>
  "is_space c = (c \<in> set [CHR 0x09, CHR 0x0A, CHR 0x0B, CHR 0x0C, CHR 0x0D,
                           CHR 0x1C, CHR 0x1D, CHR 0x1E, CHR 0x1F, CHR 0x20,
                           CHR 0x85, CHR 0xA0])"

definition non_space :: "char \<Rightarrow> bool" where
  \<comment> \<open>\<open>\S\<close>\<close>
  "non_space c = (\<not> is_space c)"

definition any_char :: "char \<Rightarrow> bool" where
  \<comment> \<open>\<open>.\<close> without the DOTALL flag: every character but the newline\<close>
  "any_char c = (c \<noteq> CHR 0x0A)"

definition lower_char :: "char \<Rightarrow> char" where
  \<comment> \<open>\<open>str.lower\<close> on one code point below 256: \<open>A-Z\<close> and the Latin-1 capitals
      \<open>0xC0-0xDE\<close> (without the multiplication sign \<open>0xD7\<close>) move up by 32\<close>
  "lower_char c =
     (let n = (of_char c :: nat)
      in if (65 \<le> n \<and> n \<le> 90) \<or> (192 \<le> n \<and> n \<le> 222 \<and> n \<noteq> 215)
         then char_of (n + 32) else c)"

definition lower :: "string \<Rightarrow> string" where
  "lower s = map lower_char s"

definition strip :: "string \<Rightarrow> string" where
  \<comment> \<open>\<open>str.strip()\<close>: white space removed at both ends\<close>
  "strip s = rev (dropWhile is_space (rev (dropWhile is_space s)))"

definition rstrip :: "string \<Rightarrow> string" where
  "rstrip s = rev (dropWhile is_space (rev s))"

definition startswith :: "string \<Rightarrow> string \<Rightarrow> bool" where
  "startswith s p = (take (length p) s = p)"

fun join :: "string \<Rightarrow> string list \<Rightarrow> string" where
  "join sep [] = []"
| "join sep [x] = x"
| "join sep (x # y # xs) = x @ sep @ join sep (y # xs)"

fun split_on :: "char \<Rightarrow> string \<Rightarrow> string list" where
  \<comment> \<open>\<open>s.split(sep)\<close> for a separator of one character: never an empty list\<close>
  "split_on sep [] = [[]]"
| "split_on sep (c # cs) =
     (if c = sep then [] # split_on sep cs
      else (c # hd (split_on sep cs)) # tl (split_on sep cs))"

definition is_linebreak :: "char \<Rightarrow> bool" where
  \<comment> \<open>the line boundaries of \<open>str.splitlines\<close> below code point 256\<close>
  "is_linebreak c = (c \<in> set [CHR 0x0A, CHR 0x0B, CHR 0x0C, CHR 0x0D,
                               CHR 0x1C, CHR 0x1D, CHR 0x1E, CHR 0x85])"

fun splitlines_from :: "string \<Rightarrow> string \<Rightarrow> string list" where
  \<comment> \<open>the second argument is the line read so far, reversed; \<open>\r\n\<close> is one boundary\<close>
  "splitlines_from cur [] = (if cur = [] then [] else [rev cur])"
| "splitlines_from cur (c # cs) =
     (if c = CHR 0x0D then
        (case cs of
           [] \<Rightarrow> [rev cur]
         | d # ds \<Rightarrow> if d = CHR 0x0A then rev cur # splitlines_from [] ds
                     else rev cur # splitlines_from [] (d # ds))
      else if is_linebreak c then rev cur # splitlines_from [] cs
      else splitlines_from (c # cur) cs)"

definition splitlines :: "string \<Rightarrow> string list" where
  "splitlines s = splitlines_from [] s"

definition digits_value :: "string \<Rightarrow> nat" where
  \<comment> \<open>\<open>int(d)\<close> for a string of decimal digits, as a \<open>\d+\<close> group is\<close>
  "digits_value d = foldl (\<lambda>acc c. 10 * acc + (of_char c - 48)) 0 d"

fun show_nat :: "nat \<Rightarrow> string" where
  \<comment> \<open>\<open>str(n)\<close>, the decimal rendering an f-string gives a non-negative integer\<close>
  "show_nat n =
     (if n < 10 then [''0123456789'' ! n]
      else show_nat (n div 10) @ [''0123456789'' ! (n mod 10)])"

fun valid_int_body :: "string \<Rightarrow> bool" where
  \<comment> \<open>what \<open>int()\<close> accepts after the sign: digits, single underscores between digits\<close>
  "valid_int_body [] = False"
| "valid_int_body [c] = is_digit c"
| "valid_int_body (c # d # r) =
     (is_digit c \<and> (if d = CHR ''_'' then valid_int_body r else valid_int_body (d # r)))"

definition py_int :: "string \<Rightarrow> int option" where
  \<comment> \<open>\<open>int(s)\<close> in base 10; \<open>None\<close> is the \<open>ValueError\<close>\<close>
  "py_int s0 =
     (let s = strip s0;
          neg = (s \<noteq> [] \<and> hd s = CHR ''-'');
          body = (if s \<noteq> [] \<and> (hd s = CHR ''-'' \<or> hd s = CHR ''+'') then tl s else s)
      in if valid_int_body body
         then Some ((if neg then - 1 else 1) * int (digits_value (filter is_digit body)))
         else None)"

section \<open>Regular expressions\<close>

text \<open>
  The patterns of the program are sequences of literals, alternations of literals,
  anchors and repeated character classes. \<open>rx_match\<close> is the backtracking matcher of
  Python's \<open>re\<close> for such a sequence: every element offers the lengths it can consume in
  its order of preference (a greedy repetition the longest first, a lazy one the
  shortest first, an alternation its branches from left to right), and the first choice
  for which the rest of the pattern matches wins. The result holds the text each element
  consumed, so that group \<open>k\<close> is read off at the element's position, and the unmatched
  rest. The flag is \<open>re.I\<close>.
\<close>

datatype rx =
    Lit string
  | Alt "string list"
  | One "char \<Rightarrow> bool"
  | Plus "char \<Rightarrow> bool"
  | PlusLazy "char \<Rightarrow> bool"
  | Star "char \<Rightarrow> bool"
  | Eos

definition lit_eq :: "bool \<Rightarrow> string \<Rightarrow> string \<Rightarrow> bool" where
  "lit_eq ci l t = (if ci then lower l = lower t else l = t)"

fun candidates :: "bool \<Rightarrow> rx \<Rightarrow> string \<Rightarrow> nat list" where
  "candidates ci (Lit l) s = (if lit_eq ci l (take (length l) s) then [length l] else [])"
| "candidates ci (Alt ls) s =
     map length (filter (\<lambda>l. lit_eq ci l (take (length l) s)) ls)"
| "candidates ci (One p) s = (if s \<noteq> [] \<and> p (hd s) then [1] else [])"
| "candidates ci (Plus p) s = rev [1 ..< Suc (length (takeWhile p s))]"
| "candidates ci (PlusLazy p) s = [1 ..< Suc (length (takeWhile p s))]"
| "candidates ci (Star p) s = rev [0 ..< Suc (length (takeWhile p s))]"
| "candidates ci Eos s = (if s = [] \<or> s = [CHR 0x0A] then [0] else [])"

fun rx_match :: "bool \<Rightarrow> rx list \<Rightarrow> string \<Rightarrow> (string list \<times> string) option"
and try_lens :: "bool \<Rightarrow> rx list \<Rightarrow> string \<Rightarrow> nat list \<Rightarrow> (string list \<times> string) option"
where
  "rx_match ci [] s = Some ([], s)"
| "rx_match ci (r # rs) s = try_lens ci rs s (candidates ci r s)"
| "try_lens ci rs s [] = None"
| "try_lens ci rs s (n # ns) =
     (case rx_match ci rs (drop n s) of
        Some (ps, t) \<Rightarrow> Some (take n s # ps, t)
      | None \<Rightarrow> try_lens ci rs s ns)"

fun rx_search :: "bool \<Rightarrow> rx list \<Rightarrow> string \<Rightarrow> (string list \<times> string) option" where
  \<comment> \<open>\<open>search\<close>: the match at the leftmost position that has one\<close>
  "rx_search ci rs [] = rx_match ci rs []"
| "rx_search ci rs (c # cs) =
     (case rx_match ci rs (c # cs) of
        Some m \<Rightarrow> Some m
      | None \<Rightarrow> rx_search ci rs cs)"

function rx_findall :: "bool \<Rightarrow> rx list \<Rightarrow> string \<Rightarrow> string list list" where
  \<comment> \<open>\<open>finditer\<close> and \<open>findall\<close>: the next search starts where the last match ended. The
      patterns of this program consume at least one character, so the rest is shorter\<close>
  "rx_findall ci rs s =
     (case rx_search ci rs s of
        None \<Rightarrow> []
      | Some (ps, t) \<Rightarrow> ps # (if length t < length s then rx_findall ci rs t else []))"
  by pat_completeness auto
termination
  by (relation "measure (\<lambda>(ci, rs, s). length s)") auto

section \<open>Canonicalisers\<close>

text \<open>
  \<^verbatim>\<open>
  def normalize_mac(raw: str) -> str:
      mac = raw.replace(".", "").lower()
      return ":".join(mac[i : i + 2] for i in range(0, len(mac), 2))
  \<close>
\<close>

fun chunks2 :: "string \<Rightarrow> string list" where
  \<comment> \<open>\<open>mac[i : i + 2] for i in range(0, len(mac), 2)\<close>\<close>
  "chunks2 [] = []"
| "chunks2 [a] = [[a]]"
| "chunks2 (a # b # r) = [a, b] # chunks2 r"

definition remove_dots :: "string \<Rightarrow> string" where
  \<comment> \<open>\<open>raw.replace(".", "")\<close>\<close>
  "remove_dots raw = filter (\<lambda>c. c \<noteq> CHR ''.'') raw"

definition normalize_mac :: "string \<Rightarrow> string" where
  "normalize_mac raw = (let mac = lower (remove_dots raw) in join '':'' (chunks2 mac))"

text \<open>
  \<^verbatim>\<open>
  def normalize_port(port: str) -> str:
      port = port.strip()
      for long, short in PREFIX_MAP.items():
          if port.startswith(long):
              port = short + port[len(long):]
              break
      m = re.match(r"([A-Za-z]+)(\d+)/(\d+)/(\d+)", port)
      if m:
          return f"{m[1]}{int(m[2])}/{int(m[3])}/{int(m[4])}"
      m2 = re.match(r"([A-Za-z]+)(\d+)/(\d+)", port)
      if m2:
          return f"{m2[1]}{int(m2[2])}/{int(m2[3])}"
      m3 = re.match(r"([A-Za-z]+)(\d+)", port)
      return f"{m3[1]}{int(m3[2])}" if m3 else port
  \<close>
\<close>

definition PREFIX_MAP :: "(string \<times> string) list" where
  \<comment> \<open>the dictionary in its insertion order, which is the order \<open>items()\<close> yields\<close>
  "PREFIX_MAP =
     [(''GigabitEthernet'', ''Gi''), (''FastEthernet'', ''Fa''),
      (''TenGigabitEthernet'', ''Te''), (''TwentyFiveGigE'', ''Tf''),
      (''FortyGigabitEthernet'', ''Fo''), (''HundredGigE'', ''Hu''),
      (''Ethernet'', ''Et''), (''Port-channel'', ''Po'')]"

fun apply_prefix_map :: "(string \<times> string) list \<Rightarrow> string \<Rightarrow> string" where
  \<comment> \<open>the \<open>for\<close> loop with its \<open>break\<close>: the first long prefix found is replaced\<close>
  "apply_prefix_map [] port = port"
| "apply_prefix_map ((long, short) # rest) port =
     (if startswith port long then short @ drop (length long) port
      else apply_prefix_map rest port)"

definition canon_num :: "string \<Rightarrow> string" where
  \<comment> \<open>\<open>f"{int(d)}"\<close>\<close>
  "canon_num d = show_nat (digits_value d)"

definition port_re3 :: "rx list" where
  "port_re3 = [Plus is_alpha, Plus is_digit, Lit ''/'', Plus is_digit, Lit ''/'', Plus is_digit]"

definition port_re2 :: "rx list" where
  "port_re2 = [Plus is_alpha, Plus is_digit, Lit ''/'', Plus is_digit]"

definition port_re1 :: "rx list" where
  "port_re1 = [Plus is_alpha, Plus is_digit]"

definition normalize_port :: "string \<Rightarrow> string" where
  "normalize_port port0 =
     (let port = apply_prefix_map PREFIX_MAP (strip port0)
      in case rx_match False port_re3 port of
           Some (m, _) \<Rightarrow>
             m ! 0 @ canon_num (m ! 1) @ ''/'' @ canon_num (m ! 3) @ ''/'' @ canon_num (m ! 5)
         | None \<Rightarrow>
        (case rx_match False port_re2 port of
           Some (m2, _) \<Rightarrow> m2 ! 0 @ canon_num (m2 ! 1) @ ''/'' @ canon_num (m2 ! 3)
         | None \<Rightarrow>
        (case rx_match False port_re1 port of
           Some (m3, _) \<Rightarrow> m3 ! 0 @ canon_num (m3 ! 1)
         | None \<Rightarrow> port)))"


section \<open>Data frames\<close>

text \<open>
  A pandas \<open>DataFrame\<close> is modelled by its column names and its rows in order.
  \<open>pd.DataFrame(rows)\<close> takes the columns from the dictionaries it is given, so for an
  empty list it has no column at all; \<open>pd.DataFrame(rows, columns=cols)\<close> always has the
  columns \<open>cols\<close>.
\<close>

datatype 'a frame = Frame (columns: "string list") (rows: "'a list")

definition DataFrame :: "string list \<Rightarrow> 'a list \<Rightarrow> 'a frame" where
  \<comment> \<open>\<open>pd.DataFrame(rows)\<close> for rows that are dictionaries with the keys \<open>keys\<close>\<close>
  "DataFrame keys rs = Frame (if rs = [] then [] else keys) rs"

definition DataFrame_columns :: "string list \<Rightarrow> 'a list \<Rightarrow> 'a frame" where
  \<comment> \<open>\<open>pd.DataFrame(rows, columns=cols)\<close>\<close>
  "DataFrame_columns cols rs = Frame cols rs"

definition empty_frame :: "'a frame \<Rightarrow> bool" where
  \<comment> \<open>\<open>df.empty\<close>: an axis of length 0\<close>
  "empty_frame f = (columns f = [] \<or> rows f = [])"

fun drop_dups_seen :: "('a \<Rightarrow> string) \<Rightarrow> string list \<Rightarrow> 'a list \<Rightarrow> 'a list" where
  \<comment> \<open>a row is kept when the value of its key has not occurred in an earlier row\<close>
  "drop_dups_seen key seen [] = []"
| "drop_dups_seen key seen (r # rs) =
     (if key r \<in> set seen then drop_dups_seen key seen rs
      else r # drop_dups_seen key (key r # seen) rs)"

definition drop_duplicates :: "('a \<Rightarrow> string) \<Rightarrow> 'a frame \<Rightarrow> 'a frame" where
  \<comment> \<open>\<open>df.drop_duplicates(col)\<close> with the default \<open>keep="first"\<close>; an empty frame is
      returned as it is, before the column is looked up\<close>
  "drop_duplicates key f =
     (if empty_frame f then f else Frame (columns f) (drop_dups_seen key [] (rows f)))"

definition merge_left ::
  "('a \<Rightarrow> string) \<Rightarrow> ('b \<Rightarrow> string) \<Rightarrow> 'a frame \<Rightarrow> 'b frame \<Rightarrow> py_error + ('a \<times> 'b option) frame"
where
  \<comment> \<open>\<open>left.merge(right, on="port", how="left")\<close>: a \<open>KeyError\<close> when a side has no
      column \<open>port\<close>; else every left row in order, once with each right row of its key
      in the right frame's order, or once with nothing when there is none\<close>
  "merge_left kl kr l r =
     (if ''port'' \<notin> set (columns l) \<or> ''port'' \<notin> set (columns r) then Inl KeyError
      else Inr (Frame (columns l @ filter (\<lambda>c. c \<noteq> ''port'') (columns r))
                 (concat (map (\<lambda>a. case filter (\<lambda>b. kr b = kl a) (rows r) of
                                      [] \<Rightarrow> [(a, None)]
                                    | bs \<Rightarrow> map (\<lambda>b. (a, Some b)) bs)
                              (rows l)))))"

section \<open>Vendor cache and vendor resolver\<close>

text \<open>
  \<^verbatim>\<open>
  def load_oui_cache() -> dict:
      if os.path.exists(LOCAL_OUI_CACHE_FILE):
          df = pd.read_csv(LOCAL_OUI_CACHE_FILE)
          return dict(zip(df.oui, df.vendor))
      return {}

  def update_oui_cache(oui: str, vendor: str):
      cols = ["oui", "vendor"]
      df = pd.read_csv(LOCAL_OUI_CACHE_FILE) if os.path.exists(LOCAL_OUI_CACHE_FILE) else pd.DataFrame(columns=cols)
      if oui not in df.oui.values:
          df = pd.concat([df, pd.DataFrame([{"oui": oui, "vendor": vendor}])], ignore_index=True)
          df.to_csv(LOCAL_OUI_CACHE_FILE, index=False)

  def get_vendor(mac: str, oui_dict: dict) -> str:
      oui = ":".join(mac.split(":")[:3])
      if oui in oui_dict:
          return oui_dict[oui]
      try:
          r = requests.get(f"https://api.macvendors.com/{mac}", timeout=5)
          if r.ok:
              oui_dict[oui] = r.text
              update_oui_cache(oui, r.text)
              return r.text
      except Exception:
          pass
      oui_dict[oui] = "Unknown"
      update_oui_cache(oui, "Unknown")
      return "Unknown"
  \<close>
  The persisted store is the file \<open>oui_cache.csv\<close>: \<open>None\<close> while the file does not
  exist, else its rows \<open>(oui, vendor)\<close> in order. Reading the file gives the strings
  that were written (true of every OUI that holds a colon), and reading and writing it
  do not fail. The external service is a function from the number of requests made so
  far and the MAC asked for to its response; the requests made are recorded in the
  state, so that a theorem can say that none was made.
\<close>

datatype response = Ok string | NotOk | Raised

record vendor_state =
  oui_dict :: "string \<rightharpoonup> string"
  oui_file :: "(string \<times> string) list option"
  requests :: "string list"

definition load_oui_cache :: "(string \<times> string) list option \<Rightarrow> string \<rightharpoonup> string" where
  \<comment> \<open>\<open>dict(zip(df.oui, df.vendor))\<close>: of two rows with one key the later one stays\<close>
  "load_oui_cache file = (case file of None \<Rightarrow> Map.empty | Some rs \<Rightarrow> map_of (rev rs))"

definition update_oui_cache ::
  "string \<Rightarrow> string \<Rightarrow> (string \<times> string) list option \<Rightarrow> (string \<times> string) list option"
where
  "update_oui_cache oui vendor file =
     (let df = (case file of None \<Rightarrow> [] | Some rs \<Rightarrow> rs)
      in if oui \<notin> set (map fst df) then Some (df @ [(oui, vendor)]) else file)"

definition oui_of :: "string \<Rightarrow> string" where
  \<comment> \<open>\<open>":".join(mac.split(":")[:3])\<close>\<close>
  "oui_of mac = join '':'' (take 3 (split_on CHR '':'' mac))"

definition get_vendor ::
  "(nat \<Rightarrow> string \<Rightarrow> response) \<Rightarrow> string \<Rightarrow> vendor_state \<Rightarrow> string \<times> vendor_state"
where
  "get_vendor web mac st =
     (let oui = oui_of mac
      in case oui_dict st oui of
           Some v \<Rightarrow> (v, st)
         | None \<Rightarrow>
             (case web (length (requests st)) mac of
                Ok text \<Rightarrow>
                  (text, \<lparr>oui_dict = (oui_dict st)(oui \<mapsto> text),
                          oui_file = update_oui_cache oui text (oui_file st),
                          requests = requests st @ [mac]\<rparr>)
              | _ \<Rightarrow>
                  (''Unknown'', \<lparr>oui_dict = (oui_dict st)(oui \<mapsto> ''Unknown''),
                                 oui_file = update_oui_cache oui ''Unknown'' (oui_file st),
                                 requests = requests st @ [mac]\<rparr>)))"


section \<open>MAC-table parser\<close>

text \<open>
  \<^verbatim>\<open>
  def parse_mac_table(output: str, oui_dict: dict) -> pd.DataFrame:
      patt = re.compile(
          r"(?P<vlan>\d+)\s+(?P<mac>[0-9a-f.]+)\s+(?:DYNAMIC|STATIC|SECURE)\s+(?P<port>\S+)",
          re.I,
      )
      rows = []
      for m in patt.finditer(output):
          port = normalize_port(m.group("port"))
          mac  = normalize_mac(m.group("mac"))
          rows.append({
              "port":        port,
              "mac_address": mac,
              "vendor":      get_vendor(mac, oui_dict),
          })
      return pd.DataFrame(rows).drop_duplicates("port")
  \<close>
\<close>

record mac_row =
  mac_port :: string
  mac_address :: string
  vendor :: string

definition is_mac_char :: "char \<Rightarrow> bool" where
  \<comment> \<open>the class \<open>[0-9a-f.]\<close> under \<open>re.I\<close>\<close>
  "is_mac_char c = (lower_char c \<in> set ''0123456789abcdef.'')"

definition mac_re :: "rx list" where
  "mac_re = [Plus is_digit, Plus is_space, Plus is_mac_char, Plus is_space,
             Alt [''DYNAMIC'', ''STATIC'', ''SECURE''], Plus is_space, Plus non_space]"

fun mac_rows ::
  "(nat \<Rightarrow> string \<Rightarrow> response) \<Rightarrow> string list list \<Rightarrow> mac_row list \<Rightarrow> vendor_state
   \<Rightarrow> mac_row list \<times> vendor_state"
where
  \<comment> \<open>the loop over the matches\<close>
  "mac_rows web [] acc st = (acc, st)"
| "mac_rows web (m # ms) acc st =
     (let port = normalize_port (m ! 6);
          mac = normalize_mac (m ! 2);
          (v, st') = get_vendor web mac st
      in mac_rows web ms (acc @ [\<lparr>mac_port = port, mac_address = mac, vendor = v\<rparr>]) st')"

definition mac_cols :: "string list" where
  "mac_cols = [''port'', ''mac_address'', ''vendor'']"

definition parse_mac_table ::
  "(nat \<Rightarrow> string \<Rightarrow> response) \<Rightarrow> string \<Rightarrow> vendor_state \<Rightarrow> mac_row frame \<times> vendor_state"
where
  "parse_mac_table web output st =
     (let (rs, st') = mac_rows web (rx_findall True mac_re output) [] st
      in (drop_duplicates mac_port (DataFrame mac_cols rs), st'))"

section \<open>Interface-status parser\<close>

text \<open>
  \<^verbatim>\<open>
  def parse_if_status(output: str) -> pd.DataFrame:
      status_re = r"(connected|notconnect|disabled|err-disabled|inactive|monitoring|secure-shutdown|sfpAbsent)"
      patt = re.compile(
          rf"^(?P<port>\S+)\s+"
          rf"(?P<name>.+?)\s+"
          rf"(?P<status>{status_re})\s+"
          r"(?P<vlan>\S+)\s+"
          r"(?P<duplex>\S+)\s+"
          r"(?P<speed>\S+)\s+"
          r"(?P<type>.+)$",
          re.I,
      )
      rows = []
      for line in output.splitlines():
          if not line.strip() or line.startswith(("Port", "---")):
              continue
          m = patt.match(line.rstrip())
          if not m:
              logging.debug("Unparsed status line: %s", line)
              continue
          rows.append(dict(port=normalize_port(m.group("port")), status=m.group("status"),
                           vlan=m.group("vlan"), description=m.group("name").strip(),
                           duplex=m.group("duplex"), speed=m.group("speed"),
                           type=m.group("type").strip()))
      return pd.DataFrame(rows)
  \<close>
  The calls of \<open>logging.debug\<close> are the second component of the result: the lines they
  were made with, in order.
\<close>

record if_row =
  if_port :: string
  if_status :: string
  if_vlan :: string
  if_description :: string
  if_duplex :: string
  if_speed :: string
  if_type :: string






definition if_cols :: "string list" where
  "if_cols = [''port'', ''status'', ''vlan'', ''description'', ''duplex'', ''speed'', ''type'']"


section \<open>Age parser and traffic-age parser\<close>

text \<open>
  \<^verbatim>\<open>
  def _age_to_timedelta(text: str):
      if text.lower() == "never":
          return None
      if ":" in text:  # hh:mm:ss
          h, m, s = map(int, text.split(":"))
          return datetime.timedelta(hours=h, minutes=m, seconds=s)
      total = 0
      for num, unit in re.findall(r"(\d+)([wdhms])", text):
          total += int(num) * dict(w=604800, d=86400, h=3600, m=60, s=1)[unit]
      return datetime.timedelta(seconds=total) if total else None
  \<close>
  A \<open>timedelta\<close> is its number of seconds; building one outside the range of
  \<open>999999999\<close> days either way is an \<open>OverflowError\<close>. Unpacking anything but three
  integers is a \<open>ValueError\<close>.
\<close>

definition timedelta :: "int \<Rightarrow> py_error + int" where
  "timedelta secs =
     (if - 999999999 * 86400 \<le> secs \<and> secs < 1000000000 * 86400 then Inr secs
      else Inl OverflowError)"

definition unit_seconds :: "string \<Rightarrow> int" where
  \<comment> \<open>\<open>dict(w=604800, d=86400, h=3600, m=60, s=1)[unit]\<close> for a unit the pattern lets through\<close>
  "unit_seconds u =
     (if u = ''w'' then 604800 else if u = ''d'' then 86400 else if u = ''h'' then 3600
      else if u = ''m'' then 60 else 1)"

definition is_unit :: "char \<Rightarrow> bool" where
  "is_unit c = (c \<in> set ''wdhms'')"

definition age_re :: "rx list" where
  "age_re = [Plus is_digit, One is_unit]"

definition age_total :: "string list list \<Rightarrow> int" where
  \<comment> \<open>the \<open>for\<close> loop that adds up the tokens\<close>
  "age_total ms = foldl (\<lambda>total m. total + int (digits_value (m ! 0)) * unit_seconds (m ! 1)) 0 ms"

definition age_to_timedelta :: "string \<Rightarrow> py_error + int option" where
  "age_to_timedelta text =
     (if lower text = ''never'' then Inr None
      else if CHR '':'' \<in> set text then
        (case map py_int (split_on CHR '':'' text) of
           [Some h, Some m, Some s] \<Rightarrow>
             (case timedelta (3600 * h + 60 * m + s) of
                Inl e \<Rightarrow> Inl e
              | Inr d \<Rightarrow> Inr (Some d))
         | _ \<Rightarrow> Inl ValueError)
      else
        (let total = age_total (rx_findall False age_re text)
         in if total \<noteq> 0
            then (case timedelta total of Inl e \<Rightarrow> Inl e | Inr d \<Rightarrow> Inr (Some d))
            else Inr None))"

text \<open>
  \<^verbatim>\<open>
  def parse_last_traffic(output: str) -> pd.DataFrame:
      rows, cur_port = [], None
      hdr  = re.compile(r"^(\S+) is .*, line protocol is")
      last = re.compile(r"Last input (\S+), output (\S+),")
      for line in output.splitlines():
          m_hdr = hdr.match(line)
          if m_hdr:
              cur_port = normalize_port(m_hdr.group(1))
              continue
          if cur_port:
              m_last = last.search(line)
              if not m_last:
                  continue
              in_d  = _age_to_timedelta(m_last.group(1))
              out_d = _age_to_timedelta(m_last.group(2))
              deltas = [d for d in (in_d, out_d) if d]
              stamp = (datetime.datetime.now() - min(deltas)).isoformat(sep=" ", timespec="seconds") if deltas else "Never"
              rows.append({"port": cur_port, "last_traffic_seen": stamp})
              cur_port = None
      return pd.DataFrame(rows)
  \<close>
  A point in time is its number of whole seconds since 0001-01-01 00:00:00, the least
  \<open>datetime\<close>; subtracting a duration gives an \<open>OverflowError\<close> when the result leaves the
  years 1 to 9999. The clock is a function: its value at \<open>k\<close> is what the call of
  \<open>datetime.now()\<close> returns that comes after \<open>k\<close> earlier ones. \<open>At t\<close> is the text that
  \<open>isoformat\<close> renders for the time \<open>t\<close>.
\<close>

datatype stamp = Never | At int

record last_row =
  last_port :: string
  last_traffic_seen :: stamp

definition datetime_sub :: "int \<Rightarrow> int \<Rightarrow> py_error + int" where
  "datetime_sub t d =
     (if 0 \<le> t - d \<and> t - d < 3652059 * 86400 then Inr (t - d) else Inl OverflowError)"

definition hdr_re :: "rx list" where
  "hdr_re = [Plus non_space, Lit '' is '', Star any_char, Lit '', line protocol is'']"

definition last_re :: "rx list" where
  "last_re = [Lit ''Last input '', Plus non_space, Lit '', output '', Plus non_space, Lit '','']"

definition truthy_deltas :: "int option list \<Rightarrow> int list" where
  \<comment> \<open>\<open>[d for d in (in_d, out_d) if d]\<close>: \<open>None\<close> is false, and so is a duration of zero\<close>
  "truthy_deltas ds = concat (map (\<lambda>d. case d of None \<Rightarrow> [] | Some x \<Rightarrow> if x = 0 then [] else [x]) ds)"

definition min_list :: "int list \<Rightarrow> int" where
  \<comment> \<open>\<open>min\<close> of a list that is not empty\<close>
  "min_list ds = foldl min (hd ds) (tl ds)"

fun traffic_loop ::
  "(nat \<Rightarrow> int) \<Rightarrow> string list \<Rightarrow> last_row list \<Rightarrow> string option \<Rightarrow> nat
   \<Rightarrow> py_error + last_row list"
where
  \<comment> \<open>the state of the loop: the rows, \<open>cur_port\<close>, and the number of clock readings\<close>
  "traffic_loop clock [] acc cur k = Inr acc"
| "traffic_loop clock (line # lines) acc cur k =
     (case rx_match False hdr_re line of
        Some (m, _) \<Rightarrow> traffic_loop clock lines acc (Some (normalize_port (m ! 0))) k
      | None \<Rightarrow>
          (case cur of
             None \<Rightarrow> traffic_loop clock lines acc cur k
           | Some cur_port \<Rightarrow>
               if cur_port = [] then traffic_loop clock lines acc cur k
               else
                 (case rx_search False last_re line of
                    None \<Rightarrow> traffic_loop clock lines acc cur k
                  | Some (m, _) \<Rightarrow>
                      (case age_to_timedelta (m ! 1) of
                         Inl e \<Rightarrow> Inl e
                       | Inr in_d \<Rightarrow>
                      (case age_to_timedelta (m ! 3) of
                         Inl e \<Rightarrow> Inl e
                       | Inr out_d \<Rightarrow>
                           (let deltas = truthy_deltas [in_d, out_d]
                            in if deltas \<noteq> [] then
                                 (case datetime_sub (clock k) (min_list deltas) of
                                    Inl e \<Rightarrow> Inl e
                                  | Inr t \<Rightarrow>
                                      traffic_loop clock lines
                                        (acc @ [\<lparr>last_port = cur_port, last_traffic_seen = At t\<rparr>])
                                        None (Suc k))
                               else
                                 traffic_loop clock lines
                                   (acc @ [\<lparr>last_port = cur_port, last_traffic_seen = Never\<rparr>])
                                   None k))))))"

definition last_cols :: "string list" where
  "last_cols = [''port'', ''last_traffic_seen'']"

definition parse_last_traffic :: "(nat \<Rightarrow> int) \<Rightarrow> string \<Rightarrow> py_error + last_row frame" where
  "parse_last_traffic clock output =
     (case traffic_loop clock (splitlines output) [] None 0 of
        Inl e \<Rightarrow> Inl e
      | Inr rs \<Rightarrow> Inr (DataFrame last_cols rs))"

section \<open>Snapshot merge\<close>

text \<open>
  \<^verbatim>\<open>
  def get_lldp_neighbors(dev: dict) -> pd.DataFrame:
      cols = ["port", "neighbor_name", "neighbor_port", "neighbor_platform", "neighbor_capability", "neighbor_device_id"]
      try:
          ...
          return pd.DataFrame(rows, columns=cols)
      except Exception as e:
          logging.error("LLDP failed for %s: %s", dev["ip"], e)
          return pd.DataFrame(columns=cols)

  def collect_switch_data(dev: dict, oui: dict, arp_map: dict) -> pd.DataFrame:
      ...
      for f in (df_if, df_mac, df_lldp, df_last):
          if not f.empty:
              f["port"] = f["port"].apply(normalize_port)
      df = (
          df_if.merge(df_mac,  on="port", how="left")
               .merge(df_lldp, on="port", how="left")
               .merge(df_last, on="port", how="left")
      )
  \<close>
  The merge is modelled from the four frames on: the LLDP frame is what
  \<open>get_lldp_neighbors\<close> returns for the neighbour records it found (none when it failed),
  and it has its columns in both cases. The steps after the merge fill and add columns and
  leave the rows in place.
\<close>

record lldp_row =
  lldp_port :: string
  neighbor_name :: string
  neighbor_port :: string
  neighbor_platform :: string
  neighbor_capability :: string
  neighbor_device_id :: string

definition lldp_cols :: "string list" where
  "lldp_cols = [''port'', ''neighbor_name'', ''neighbor_port'', ''neighbor_platform'',
                ''neighbor_capability'', ''neighbor_device_id'']"

definition lldp_frame :: "lldp_row list \<Rightarrow> lldp_row frame" where
  "lldp_frame rs = DataFrame_columns lldp_cols rs"

definition renormalize :: "((string \<Rightarrow> string) \<Rightarrow> 'a \<Rightarrow> 'a) \<Rightarrow> 'a frame \<Rightarrow> 'a frame" where
  \<comment> \<open>\<open>if not f.empty: f["port"] = f["port"].apply(normalize_port)\<close>; the first argument
      is the update of the port of a row\<close>
  "renormalize upd f =
     (if empty_frame f then f else Frame (columns f) (map (upd normalize_port) (rows f)))"

type_synonym snapshot_row = "((if_row \<times> mac_row option) \<times> lldp_row option) \<times> last_row option"

definition snapshot_port :: "snapshot_row \<Rightarrow> string" where
  "snapshot_port r = if_port (fst (fst (fst r)))"

definition merge_frames ::
  "if_row frame \<Rightarrow> mac_row frame \<Rightarrow> lldp_row frame \<Rightarrow> last_row frame
   \<Rightarrow> py_error + snapshot_row frame"
where
  "merge_frames df_if0 df_mac0 df_lldp0 df_last0 =
     (let df_if = renormalize if_port_update df_if0;
          df_mac = renormalize mac_port_update df_mac0;
          df_lldp = renormalize lldp_port_update df_lldp0;
          df_last = renormalize last_port_update df_last0
      in case merge_left if_port mac_port df_if df_mac of
           Inl e \<Rightarrow> Inl e
         | Inr df1 \<Rightarrow>
        (case merge_left (\<lambda>r. if_port (fst r)) lldp_port df1 df_lldp of
           Inl e \<Rightarrow> Inl e
         | Inr df2 \<Rightarrow>
             merge_left (\<lambda>r. if_port (fst (fst r))) last_port df2 df_last))"


section \<open>Notions of the specification\<close>

definition is_hex :: "char \<Rightarrow> bool" where
  "is_hex c = (c \<in> set ''0123456789abcdefABCDEF'')"

definition canonical_mac :: "string \<Rightarrow> string" where
  \<comment> \<open>the canonical spelling of the address with the twelve hex digits \<open>h\<close>: lower case,
      six groups of two, colons between them\<close>
  "canonical_mac h =
     (let l = lower h
      in [l ! 0, l ! 1, CHR '':'', l ! 2, l ! 3, CHR '':'', l ! 4, l ! 5, CHR '':'',
          l ! 6, l ! 7, CHR '':'', l ! 8, l ! 9, CHR '':'', l ! 10, l ! 11])"


definition starts_with_long :: "string \<Rightarrow> bool" where
  \<comment> \<open>the text begins with one of the long prefixes of \<open>PREFIX_MAP\<close>\<close>
  "starts_with_long s = list_ex (\<lambda>(long, short). startswith s long) PREFIX_MAP"

definition trimmed :: "string \<Rightarrow> bool" where
  \<comment> \<open>no white space at either end\<close>
  "trimmed s = (s = [] \<or> (\<not> is_space (hd s) \<and> \<not> is_space (last s)))"

definition letters :: "string \<Rightarrow> bool" where
  \<comment> \<open>what \<open>[A-Za-z]+\<close> matches as a whole\<close>
  "letters s = (s \<noteq> [] \<and> (\<forall>c \<in> set s. is_alpha c))"

definition digits :: "string \<Rightarrow> bool" where
  \<comment> \<open>what \<open>\d+\<close> matches as a whole\<close>
  "digits s = (s \<noteq> [] \<and> (\<forall>c \<in> set s. is_digit c))"

definition ends_number :: "string \<Rightarrow> bool" where
  \<comment> \<open>the text does not go on with a digit: a number before it ends there\<close>
  "ends_number t = (t = [] \<or> \<not> is_digit (hd t))"

definition no_component :: "string \<Rightarrow> bool" where
  \<comment> \<open>the text does not go on with a slash and a digit, a further numeric component\<close>
  "no_component t = (\<not> (\<exists>c r. t = CHR ''/'' # c # r \<and> is_digit c))"


definition start_state :: "(string \<times> string) list option \<Rightarrow> vendor_state" where
  \<comment> \<open>the state \<open>main\<close> starts with: \<open>oui_cache = load_oui_cache()\<close>, no request made yet\<close>
  "start_state file = \<lparr>oui_dict = load_oui_cache file, oui_file = file, requests = []\<rparr>"



definition example_if :: "if_row frame" where
  \<comment> \<open>a status set with the one port \<open>Gi1/0/1\<close>\<close>
  "example_if = DataFrame if_cols
     [\<lparr>if_port = ''Gi1/0/1'', if_status = ''connected'', if_vlan = ''1'',
       if_description = ''Uplink to core'', if_duplex = ''full'', if_speed = ''1000'',
       if_type = ''10/100/1000BaseTX''\<rparr>]"

definition example_mac :: "mac_row frame" where
  "example_mac = DataFrame mac_cols
     [\<lparr>mac_port = ''Gi1/0/1'', mac_address = ''aa:bb:cc:dd:ee:ff'', vendor = ''Unknown''\<rparr>]"

definition example_lldp :: "lldp_row frame" where
  \<comment> \<open>two neighbours seen on the one port, as behind a phone or an unmanaged switch\<close>
  "example_lldp = lldp_frame
     [\<lparr>lldp_port = ''Gi1/0/1'', neighbor_name = ''phone'', neighbor_port = ''1'',
       neighbor_platform = [], neighbor_capability = ''T'', neighbor_device_id = ''0011.2233.4455''\<rparr>,
      \<lparr>lldp_port = ''Gi1/0/1'', neighbor_name = ''pc'', neighbor_port = ''eth0'',
       neighbor_platform = [], neighbor_capability = ''S'', neighbor_device_id = ''0011.2233.4466''\<rparr>]"

definition example_last :: "last_row frame" where
  "example_last = DataFrame last_cols [\<lparr>last_port = ''Gi1/0/1'', last_traffic_seen = Never\<rparr>]"

section \<open>Properties of characters and strings\<close>

lemma of_char_lower_char:
  "(of_char (lower_char c) :: nat) =
     (if (65 \<le> (of_char c :: nat) \<and> (of_char c :: nat) \<le> 90)
         \<or> (192 \<le> (of_char c :: nat) \<and> (of_char c :: nat) \<le> 222 \<and> (of_char c :: nat) \<noteq> 215)
      then of_char c + 32 else of_char c)"
  by (auto simp: lower_char_def Let_def)

lemma lower_char_idem: "lower_char (lower_char c) = lower_char c"
proof -
  have "(of_char (lower_char (lower_char c)) :: nat) = of_char (lower_char c)"
    by (simp add: of_char_lower_char)
  then show ?thesis by simp
qed

lemma lower_idem: "lower (lower s) = lower s"
  by (simp add: lower_def lower_char_idem)

lemma length_lower: "length (lower s) = length s"
  by (simp add: lower_def)

lemma lower_char_dot: "lower_char c = CHR ''.'' \<longleftrightarrow> c = CHR ''.''"
proof
  assume "lower_char c = CHR ''.''"
  then have "(of_char (lower_char c) :: nat) = 46" by simp
  then have "(of_char c :: nat) = 46"
    by (simp add: of_char_lower_char split: if_splits)
  then have "(of_char c :: nat) = of_char CHR ''.''" by simp
  then show "c = CHR ''.''" by (simp only: of_char_eq_iff)
next
  assume "c = CHR ''.''"
  then show "lower_char c = CHR ''.''" by (simp add: lower_char_def)
qed

section \<open>Properties of the MAC canonicaliser\<close>

lemma length12_cases:
  assumes "length (h :: 'a list) = 12"
  obtains a b c d e f g i j k l m where "h = [a, b, c, d, e, f, g, i, j, k, l, m]"
proof -
  from assms show ?thesis
    by (auto simp: length_Suc_conv numeral_eq_Suc intro: that)
qed

text \<open>
  C5 (as amended). For every address of twelve hex digits, every spelling that differs
  from the digits only by dots (Cisco's \<open>AABB.CCDD.EEFF\<close>, any other placement of dots, or
  no separator at all) is mapped by \<open>normalize_mac\<close> to the canonical lower-case
  colon-separated string; in particular \<open>AABB.CCDD.EEFF\<close> goes to \<open>aa:bb:cc:dd:ee:ff\<close>.
  Dashes are not removed, so the dash-separated spelling is not covered.
\<close>

theorem normalize_mac_dots_or_none:
  assumes "length h = 12" and "\<forall>c \<in> set h. is_hex c" and "remove_dots x = h"
  shows "normalize_mac x = canonical_mac h"
proof -
  from assms(1) obtain a b c d e f g i j k l m
    where h: "h = [a, b, c, d, e, f, g, i, j, k, l, m]" by (rule length12_cases)
  show ?thesis
    by (simp add: normalize_mac_def canonical_mac_def assms(3) h lower_def)
qed

theorem normalize_mac_dots_or_none_witness:
  "normalize_mac ''AABB.CCDD.EEFF'' = ''aa:bb:cc:dd:ee:ff''
   \<and> normalize_mac ''aabbccddeeff'' = ''aa:bb:cc:dd:ee:ff''"
proof -
  have h: "length ''AABBCCDDEEFF'' = 12" "\<forall>c \<in> set ''AABBCCDDEEFF''. is_hex c"
    by (simp_all add: is_hex_def)
  have c: "canonical_mac ''AABBCCDDEEFF'' = ''aa:bb:cc:dd:ee:ff''"
    by code_simp
  have 1: "remove_dots ''AABB.CCDD.EEFF'' = ''AABBCCDDEEFF''"
    by (simp add: remove_dots_def)
  have 2: "remove_dots ''aabbccddeeff'' = ''aabbccddeeff''"
    by (simp add: remove_dots_def)
  have h2: "length ''aabbccddeeff'' = 12" "\<forall>c \<in> set ''aabbccddeeff''. is_hex c"
    by (simp_all add: is_hex_def)
  have c2: "canonical_mac ''aabbccddeeff'' = ''aa:bb:cc:dd:ee:ff''"
    by code_simp
  from normalize_mac_dots_or_none [OF h 1] normalize_mac_dots_or_none [OF h2 2] c c2
  show ?thesis by simp
qed

theorem normalize_mac_dash_counterexample:
  "normalize_mac ''AA-BB-CC-DD-EE-FF'' = ''aa:-b:b-:cc:-d:d-:ee:-f:f''
   \<and> normalize_mac ''AA-BB-CC-DD-EE-FF'' \<noteq> normalize_mac ''AABB.CCDD.EEFF''"
  by code_simp

section \<open>Properties of the age parser\<close>

text \<open>
  C9. The age parser maps \<open>1w2d\<close> to 777600 seconds, which is nine days, and
  \<open>00:05:30\<close> to 330 seconds; every spelling of \<open>never\<close>, whatever the case of its letters,
  goes to the sentinel \<open>None\<close>, which is not the duration of zero seconds.
\<close>

theorem age_reference_values:
  "age_to_timedelta ''1w2d'' = Inr (Some 777600) \<and> (777600 :: int) = 9 * 86400
   \<and> age_to_timedelta ''00:05:30'' = Inr (Some 330)
   \<and> (\<forall>text. lower text = ''never'' \<longrightarrow>
         age_to_timedelta text = Inr None \<and> age_to_timedelta text \<noteq> Inr (Some 0))"
proof -
  have 1: "age_to_timedelta ''1w2d'' = Inr (Some 777600)" by code_simp
  have 2: "age_to_timedelta ''00:05:30'' = Inr (Some 330)" by code_simp
  have 3: "age_to_timedelta t = Inr None" if "lower t = ''never''" for t
    using that by (simp add: age_to_timedelta_def)
  from 1 2 3 show ?thesis by simp
qed

theorem age_reference_values_witness:
  "lower ''NeVer'' = ''never'' \<and> age_to_timedelta ''NeVer'' = Inr None"
proof -
  have l: "lower ''NeVer'' = ''never''" by code_simp
  with age_reference_values show ?thesis by blast
qed

section \<open>The traffic-age parser on an age of zero\<close>

text \<open>
  C4. The age \<open>00:00:00\<close> parses to a duration, that of zero seconds. The list
  comprehension \<open>[d for d in (in_d, out_d) if d]\<close> drops it, since a \<open>timedelta\<close> of zero is
  false: a port whose last input was less than a second ago is stamped \<open>Never\<close>, where
  the rule asks for the present time, and one with \<open>Last input 00:00:00, output 00:00:05\<close>
  is stamped five seconds back.
\<close>

theorem zero_age_is_dropped:
  "age_to_timedelta ''00:00:00'' = Inr (Some 0)
   \<and> parse_last_traffic (\<lambda>k. 1000000)
        ''Gi1/0/1 is up, line protocol is up\<newline>  Last input 00:00:00, output never, output hang never''
      = Inr (Frame [''port'', ''last_traffic_seen'']
               [\<lparr>last_port = ''Gi1/0/1'', last_traffic_seen = Never\<rparr>])
   \<and> parse_last_traffic (\<lambda>k. 1000000)
        ''Gi1/0/1 is up, line protocol is up\<newline>  Last input 00:00:00, output 00:00:05, output hang never''
      = Inr (Frame [''port'', ''last_traffic_seen'']
               [\<lparr>last_port = ''Gi1/0/1'', last_traffic_seen = At 999995\<rparr>])"
  by code_simp


section \<open>Properties of the matcher\<close>

declare rx_match.simps(2) [simp del]

lemma try_lens_all_fail:
  "(\<And>n. n \<in> set ns \<Longrightarrow> rx_match ci rs (drop n s) = None) \<Longrightarrow> try_lens ci rs s ns = None"
  by (induction ns) auto

lemma try_lens_first:
  "rx_match ci rs (drop n s) = Some (ps, t) \<Longrightarrow> try_lens ci rs s (n # ns) = Some (take n s # ps, t)"
  by simp

lemma takeWhile_nth_holds:
  assumes "n < length (takeWhile p s)"
  shows "p (s ! n)"
proof -
  from assms have "takeWhile p s ! n \<in> set (takeWhile p s)" by (rule nth_mem)
  then have "p (takeWhile p s ! n)" by (rule set_takeWhileD [THEN conjunct2])
  with assms show ?thesis by (simp add: takeWhile_nth)
qed

lemma upt_rev_Suc: "0 < k \<Longrightarrow> rev [1 ..< Suc k] = k # rev [1 ..< k]"
  by simp

text \<open>
  A greedy repetition takes the whole run of its class when the rest of the pattern
  matches behind the run, or when the rest cannot match a text that begins with a
  character of the class: then no shorter choice can succeed either.
\<close>

lemma plus_greedy:
  assumes "rx_match ci rs (dropWhile p s) \<noteq> None
           \<or> (\<forall>t. t \<noteq> [] \<and> p (hd t) \<longrightarrow> rx_match ci rs t = None)"
  shows "rx_match ci (Plus p # rs) s =
           (if takeWhile p s = [] then None
            else case rx_match ci rs (dropWhile p s) of
                   None \<Rightarrow> None
                 | Some (ps, t) \<Rightarrow> Some (takeWhile p s # ps, t))"
proof (cases "takeWhile p s = []")
  case True
  then show ?thesis by (simp add: rx_match.simps(2))
next
  case False
  define k where "k = length (takeWhile p s)"
  from False have k: "0 < k" by (simp add: k_def)
  have tk: "take k s = takeWhile p s" by (simp add: k_def takeWhile_eq_take [symmetric])
  have dk: "drop k s = dropWhile p s" by (simp add: k_def dropWhile_eq_drop [symmetric])
  from k have "[1 ..< Suc k] = [1 ..< k] @ [k]" by simp
  then have cand: "candidates ci (Plus p) s = k # rev [1 ..< k]"
    by (simp add: k_def)
  show ?thesis
  proof (cases "rx_match ci rs (dropWhile p s)")
    case (Some r)
    then show ?thesis using False cand tk dk by (cases r) (simp add: rx_match.simps(2))
  next
    case None
    with assms have rej: "\<And>t. t \<noteq> [] \<Longrightarrow> p (hd t) \<Longrightarrow> rx_match ci rs t = None" by simp
    have "rx_match ci rs (drop n s) = None" if "n \<in> set (rev [1 ..< k])" for n
    proof -
      from that have n: "n < k" by simp
      then have nl: "n < length s"
        using length_takeWhile_le [of p s] by (simp add: k_def)
      then have ne: "drop n s \<noteq> []" by simp
      have "hd (drop n s) = s ! n" using nl by (simp add: hd_drop_conv_nth)
      moreover have "p (s ! n)" using n by (simp add: k_def takeWhile_nth_holds)
      ultimately show ?thesis using rej ne by simp
    qed
    then have "try_lens ci rs s (rev [1 ..< k]) = None" by (rule try_lens_all_fail)
    then show ?thesis using None False cand dk by (simp add: rx_match.simps(2))
  qed
qed

lemma plus_no_start:
  "s = [] \<or> \<not> p (hd s) \<Longrightarrow> rx_match ci (Plus p # rs) s = None"
  by (cases s) (auto simp: rx_match.simps(2))

lemma lit_step:
  "rx_match False (Lit l # rs) s =
     (if take (length l) s = l
      then case rx_match False rs (drop (length l) s) of
             None \<Rightarrow> None
           | Some (ps, t) \<Rightarrow> Some (l # ps, t)
      else None)"
  by (auto simp: lit_eq_def rx_match.simps(2) split: option.splits)

lemma rx_match_suffix:
  "rx_match ci rs s = Some (ps, t) \<Longrightarrow> s = concat ps @ t \<and> length ps = length rs"
  "try_lens ci rs s ns = Some (qs, t) \<Longrightarrow> s = concat qs @ t \<and> length qs = Suc (length rs)"
proof (induction ci rs s and ci rs s ns arbitrary: ps t and qs t rule: rx_match_try_lens.induct)
  case (1 ci s)
  then show ?case by simp
next
  case (2 ci r rs s)
  then show ?case by (simp add: rx_match.simps(2))
next
  case (3 ci rs s)
  then show ?case by simp
next
  case (4 ci rs s n ns)
  show ?case
  proof (cases "rx_match ci rs (drop n s)")
    case None
    with 4 show ?thesis by simp
  next
    case (Some r)
    obtain ps' t' where r: "r = (ps', t')" by (cases r)
    from 4(1) [of ps' t'] Some r have a: "drop n s = concat ps' @ t'" "length ps' = length rs"
      by simp_all
    from 4(3) Some r have q: "qs = take n s # ps'" "t = t'" by simp_all
    have "s = take n s @ drop n s" by simp
    with a q show ?thesis by simp
  qed
qed

section \<open>The three port patterns\<close>

lemma digit_not_alpha: "is_digit c \<Longrightarrow> \<not> is_alpha c"
  by (auto simp: is_digit_def is_alpha_def)

lemma digit_not_slash: "is_digit c \<Longrightarrow> c \<noteq> CHR ''/''"
  by (auto simp: is_digit_def)

lemma alpha_not_space: "is_alpha c \<Longrightarrow> \<not> is_space c"
  by (auto simp: is_alpha_def is_space_def)

lemma digit_not_space: "is_digit c \<Longrightarrow> \<not> is_space c"
  by (auto simp: is_digit_def is_space_def)

lemma rej_plus_digit:
  "t \<noteq> [] \<and> is_alpha (hd t) \<longrightarrow> rx_match ci (Plus is_digit # rs) t = None"
  using digit_not_alpha by (cases t) (auto simp: rx_match.simps(2))

lemma rej_slash:
  "t \<noteq> [] \<and> is_digit (hd t) \<longrightarrow> rx_match False (Lit ''/'' # rs) t = None"
  using digit_not_slash by (cases t) (auto simp: lit_eq_def rx_match.simps(2))

lemma digits_last:
  "rx_match ci [Plus is_digit] s =
     (if takeWhile is_digit s = [] then None
      else Some ([takeWhile is_digit s], dropWhile is_digit s))"
  by (subst plus_greedy) simp_all

lemma slash_digits:
  "rx_match False [Lit ''/'', Plus is_digit] s =
     (case s of
        [] \<Rightarrow> None
      | c # r \<Rightarrow> if c = CHR ''/'' \<and> takeWhile is_digit r \<noteq> []
                 then Some ([''/'', takeWhile is_digit r], dropWhile is_digit r) else None)"
  by (cases s) (simp_all add: lit_step digits_last)

lemma digits_slash_digits:
  "rx_match False [Plus is_digit, Lit ''/'', Plus is_digit] s =
     (if takeWhile is_digit s = [] then None
      else case rx_match False [Lit ''/'', Plus is_digit] (dropWhile is_digit s) of
             None \<Rightarrow> None
           | Some (ps, t) \<Rightarrow> Some (takeWhile is_digit s # ps, t))"
  by (rule plus_greedy) (rule disjI2, rule allI, rule rej_slash)

lemma slash_digits_slash_digits:
  "rx_match False [Lit ''/'', Plus is_digit, Lit ''/'', Plus is_digit] s =
     (case s of
        [] \<Rightarrow> None
      | c # r \<Rightarrow> if c = CHR ''/''
                 then case rx_match False [Plus is_digit, Lit ''/'', Plus is_digit] r of
                        None \<Rightarrow> None
                      | Some (ps, t) \<Rightarrow> Some (''/'' # ps, t)
                 else None)"
  by (cases s) (simp_all add: lit_step)

lemma port_re1_eq:
  "rx_match False port_re1 s =
     (if takeWhile is_alpha s = [] then None
      else case rx_match False [Plus is_digit] (dropWhile is_alpha s) of
             None \<Rightarrow> None
           | Some (ps, t) \<Rightarrow> Some (takeWhile is_alpha s # ps, t))"
  unfolding port_re1_def by (rule plus_greedy) (rule disjI2, rule allI, rule rej_plus_digit)

lemma port_re2_eq:
  "rx_match False port_re2 s =
     (if takeWhile is_alpha s = [] then None
      else case rx_match False [Plus is_digit, Lit ''/'', Plus is_digit] (dropWhile is_alpha s) of
             None \<Rightarrow> None
           | Some (ps, t) \<Rightarrow> Some (takeWhile is_alpha s # ps, t))"
  unfolding port_re2_def by (rule plus_greedy) (rule disjI2, rule allI, rule rej_plus_digit)

lemma d_s_d_s_d:
  "rx_match False [Plus is_digit, Lit ''/'', Plus is_digit, Lit ''/'', Plus is_digit] s =
     (if takeWhile is_digit s = [] then None
      else case rx_match False [Lit ''/'', Plus is_digit, Lit ''/'', Plus is_digit]
                  (dropWhile is_digit s) of
             None \<Rightarrow> None
           | Some (ps, t) \<Rightarrow> Some (takeWhile is_digit s # ps, t))"
  by (rule plus_greedy) (rule disjI2, rule allI, rule rej_slash)

lemma port_re3_eq:
  "rx_match False port_re3 s =
     (if takeWhile is_alpha s = [] then None
      else case rx_match False [Plus is_digit, Lit ''/'', Plus is_digit, Lit ''/'', Plus is_digit]
                  (dropWhile is_alpha s) of
             None \<Rightarrow> None
           | Some (ps, t) \<Rightarrow> Some (takeWhile is_alpha s # ps, t))"
  unfolding port_re3_def by (rule plus_greedy) (rule disjI2, rule allI, rule rej_plus_digit)

text \<open>
  A pattern that begins with a repetition of one or more characters consumes at least one
  character, so \<open>rx_findall\<close> always goes on behind a match of it: this is the case of the
  patterns that the program searches repeatedly.
\<close>

lemma try_lens_Some:
  "try_lens ci rs s ns = Some (qs, t) \<Longrightarrow>
   \<exists>n \<in> set ns. \<exists>ps. rx_match ci rs (drop n s) = Some (ps, t) \<and> qs = take n s # ps"
proof (induction ns)
  case Nil
  then show ?case by simp
next
  case (Cons n ns)
  show ?case
  proof (cases "rx_match ci rs (drop n s)")
    case None
    with Cons show ?thesis by simp
  next
    case (Some r)
    with Cons.prems show ?thesis by (cases r) auto
  qed
qed

lemma plus_consumes:
  assumes "rx_match ci (Plus p # rs) s = Some (qs, t)"
  shows "length t < length s"
proof -
  from assms have "try_lens ci rs s (rev [1 ..< Suc (length (takeWhile p s))]) = Some (qs, t)"
    by (simp add: rx_match.simps(2))
  then obtain n ps where n: "n \<in> set (rev [1 ..< Suc (length (takeWhile p s))])"
    and m: "rx_match ci rs (drop n s) = Some (ps, t)"
    by (blast dest: try_lens_Some)
  from n have "0 < n" "n \<le> length s"
    using length_takeWhile_le [of p s] by auto
  moreover from m have "drop n s = concat ps @ t" by (simp add: rx_match_suffix)
  then have "length (drop n s) = length (concat ps) + length t" by (metis length_append)
  ultimately show ?thesis by simp
qed

lemma search_plus_consumes:
  "rx_search ci (Plus p # rs) s = Some (qs, t) \<Longrightarrow> length t < length s"
proof (induction s)
  case Nil
  then show ?case by (simp add: rx_match.simps(2))
next
  case (Cons c cs)
  show ?case
  proof (cases "rx_match ci (Plus p # rs) (c # cs)")
    case None
    with Cons show ?thesis by simp
  next
    case (Some r)
    with Cons.prems have "rx_match ci (Plus p # rs) (c # cs) = Some (qs, t)" by simp
    then show ?thesis by (rule plus_consumes)
  qed
qed

lemma rx_findall_plus:
  "rx_findall ci (Plus p # rs) s =
     (case rx_search ci (Plus p # rs) s of
        None \<Rightarrow> []
      | Some (ps, t) \<Rightarrow> ps # rx_findall ci (Plus p # rs) t)"
proof (cases "rx_search ci (Plus p # rs) s")
  case None
  then show ?thesis by (subst rx_findall.simps) simp
next
  case (Some r)
  obtain ps t where r: "r = (ps, t)" by (cases r)
  with Some have "length t < length s" by (simp add: search_plus_consumes)
  with Some r show ?thesis by (subst rx_findall.simps) simp
qed


section \<open>Matches of the port patterns\<close>

lemma span_run:
  assumes "\<forall>c \<in> set a. p c" and "r = [] \<or> \<not> p (hd r)"
  shows "takeWhile p (a @ r) = a" and "dropWhile p (a @ r) = r"
proof -
  from assms(2) have "takeWhile p r = []" by (cases r) auto
  with assms(1) show "takeWhile p (a @ r) = a" by (simp add: takeWhile_append2)
  from assms(2) have "dropWhile p r = r" by (cases r) auto
  with assms(1) show "dropWhile p (a @ r) = r" by (simp add: dropWhile_append2)
qed

lemma digits_then:
  assumes "digits d"
  shows "d @ t \<noteq> []" and "\<not> is_alpha (hd (d @ t))" and "hd (d @ t) \<noteq> CHR ''/''"
  using assms digit_not_alpha digit_not_slash by (cases d; auto simp: digits_def)+

lemma ends_number_slash: "ends_number (CHR ''/'' # t)"
  by (simp add: ends_number_def is_digit_def)

lemma digits_last_intro:
  assumes "digits d" and "ends_number t"
  shows "rx_match ci [Plus is_digit] (d @ t) = Some ([d], t)"
  using assms span_run [of d is_digit t]
  by (simp add: digits_last digits_def ends_number_def)

lemma slash_digits_none:
  assumes "no_component t"
  shows "rx_match False [Lit ''/'', Plus is_digit] t = None"
proof (cases t)
  case Nil
  then show ?thesis by (simp add: slash_digits)
next
  case (Cons c r)
  show ?thesis
  proof (cases "c = CHR ''/'' \<and> takeWhile is_digit r \<noteq> []")
    case False
    with Cons show ?thesis by (simp add: slash_digits)
  next
    case True
    then obtain x xs where r: "r = x # xs" and "is_digit x" by (cases r) (auto split: if_splits)
    with True Cons assms show ?thesis by (simp add: no_component_def)
  qed
qed

lemma d_s_d_intro:
  assumes "digits d1" and "digits d2" and "ends_number t"
  shows "rx_match False [Plus is_digit, Lit ''/'', Plus is_digit] (d1 @ CHR ''/'' # d2 @ t)
           = Some ([d1, ''/'', d2], t)"
proof -
  have 1: "takeWhile is_digit (d1 @ CHR ''/'' # d2 @ t) = d1"
          "dropWhile is_digit (d1 @ CHR ''/'' # d2 @ t) = CHR ''/'' # d2 @ t"
    using assms(1) span_run [of d1 is_digit "CHR ''/'' # d2 @ t"]
    by (simp_all add: digits_def is_digit_def)
  have 2: "takeWhile is_digit (d2 @ t) = d2" "dropWhile is_digit (d2 @ t) = t"
    using assms(2,3) span_run [of d2 is_digit t] by (simp_all add: digits_def ends_number_def)
  from assms(1,2) have ne: "d1 \<noteq> []" "d2 \<noteq> []" by (simp_all add: digits_def)
  show ?thesis by (simp add: digits_slash_digits slash_digits 1 2 ne)
qed

lemma d_s_d_none:
  assumes "digits d" and "ends_number t" and "no_component t"
  shows "rx_match False [Plus is_digit, Lit ''/'', Plus is_digit] (d @ t) = None"
proof -
  have "dropWhile is_digit (d @ t) = t"
    using assms(1,2) span_run [of d is_digit t] by (simp add: digits_def ends_number_def)
  then show ?thesis using assms(3) by (simp add: digits_slash_digits slash_digits_none)
qed

lemma d_s_d_s_d_intro:
  assumes "digits d1" and "digits d2" and "digits d3" and "ends_number t"
  shows "rx_match False [Plus is_digit, Lit ''/'', Plus is_digit, Lit ''/'', Plus is_digit]
           (d1 @ CHR ''/'' # d2 @ CHR ''/'' # d3 @ t) = Some ([d1, ''/'', d2, ''/'', d3], t)"
proof -
  have 1: "takeWhile is_digit (d1 @ CHR ''/'' # d2 @ CHR ''/'' # d3 @ t) = d1"
          "dropWhile is_digit (d1 @ CHR ''/'' # d2 @ CHR ''/'' # d3 @ t) = CHR ''/'' # d2 @ CHR ''/'' # d3 @ t"
    using assms(1) span_run [of d1 is_digit "CHR ''/'' # d2 @ CHR ''/'' # d3 @ t"]
    by (simp_all add: digits_def is_digit_def)
  from assms(1) have ne: "d1 \<noteq> []" by (simp add: digits_def)
  from d_s_d_intro [OF assms(2,3,4)]
  show ?thesis by (simp add: d_s_d_s_d slash_digits_slash_digits 1 ne)
qed

lemma d_s_d_s_d_none1:
  assumes "digits d" and "ends_number t" and "no_component t"
  shows "rx_match False [Plus is_digit, Lit ''/'', Plus is_digit, Lit ''/'', Plus is_digit]
           (d @ t) = None"
proof -
  have 1: "dropWhile is_digit (d @ t) = t"
    using assms(1,2) span_run [of d is_digit t] by (simp add: digits_def ends_number_def)
  have "rx_match False [Lit ''/'', Plus is_digit, Lit ''/'', Plus is_digit] t = None"
  proof (cases t)
    case Nil
    then show ?thesis by (simp add: slash_digits_slash_digits)
  next
    case (Cons c r)
    show ?thesis
    proof (cases "c = CHR ''/''")
      case False
      with Cons show ?thesis by (simp add: slash_digits_slash_digits)
    next
      case True
      with Cons assms(3) have "r = [] \<or> \<not> is_digit (hd r)"
        by (cases r) (auto simp: no_component_def)
      then have "takeWhile is_digit r = []" by (cases r) auto
      with Cons True show ?thesis by (simp add: slash_digits_slash_digits digits_slash_digits)
    qed
  qed
  with 1 show ?thesis by (simp add: d_s_d_s_d)
qed

lemma d_s_d_s_d_none2:
  assumes "digits d1" and "digits d2" and "ends_number t" and "no_component t"
  shows "rx_match False [Plus is_digit, Lit ''/'', Plus is_digit, Lit ''/'', Plus is_digit]
           (d1 @ CHR ''/'' # d2 @ t) = None"
proof -
  have 1: "takeWhile is_digit (d1 @ CHR ''/'' # d2 @ t) = d1"
          "dropWhile is_digit (d1 @ CHR ''/'' # d2 @ t) = CHR ''/'' # d2 @ t"
    using assms(1) span_run [of d1 is_digit "CHR ''/'' # d2 @ t"]
    by (simp_all add: digits_def is_digit_def)
  from assms(1) have ne: "d1 \<noteq> []" by (simp add: digits_def)
  from d_s_d_none [OF assms(2,3,4)]
  show ?thesis by (simp add: d_s_d_s_d slash_digits_slash_digits 1 ne)
qed

lemma letters_span:
  assumes "letters l" and "digits d"
  shows "takeWhile is_alpha (l @ d @ t) = l" and "dropWhile is_alpha (l @ d @ t) = d @ t"
    and "takeWhile is_alpha (l @ d @ t) \<noteq> []"
  using assms span_run [of l is_alpha "d @ t"] digits_then [OF assms(2), of t]
  by (simp_all add: letters_def)

lemma re1_intro:
  assumes "letters l" and "digits d" and "ends_number t"
  shows "rx_match False port_re1 (l @ d @ t) = Some ([l, d], t)"
  using letters_span [OF assms(1,2), of t] digits_last_intro [OF assms(2,3)]
  by (simp add: port_re1_eq)

lemma re2_intro:
  assumes "letters l" and "digits d1" and "digits d2" and "ends_number t"
  shows "rx_match False port_re2 (l @ d1 @ CHR ''/'' # d2 @ t) = Some ([l, d1, ''/'', d2], t)"
  using letters_span [OF assms(1,2), of "CHR ''/'' # d2 @ t"] d_s_d_intro [OF assms(2,3,4)]
  by (simp add: port_re2_eq)

lemma re3_intro:
  assumes "letters l" and "digits d1" and "digits d2" and "digits d3" and "ends_number t"
  shows "rx_match False port_re3 (l @ d1 @ CHR ''/'' # d2 @ CHR ''/'' # d3 @ t)
           = Some ([l, d1, ''/'', d2, ''/'', d3], t)"
  using letters_span [OF assms(1,2), of "CHR ''/'' # d2 @ CHR ''/'' # d3 @ t"]
        d_s_d_s_d_intro [OF assms(2,3,4,5)]
  by (simp add: port_re3_eq)

lemma re2_none:
  assumes "letters l" and "digits d" and "ends_number t" and "no_component t"
  shows "rx_match False port_re2 (l @ d @ t) = None"
  using letters_span [OF assms(1,2), of t] d_s_d_none [OF assms(2,3,4)]
  by (simp add: port_re2_eq)

lemma re3_none1:
  assumes "letters l" and "digits d" and "ends_number t" and "no_component t"
  shows "rx_match False port_re3 (l @ d @ t) = None"
  using letters_span [OF assms(1,2), of t] d_s_d_s_d_none1 [OF assms(2,3,4)]
  by (simp add: port_re3_eq)

lemma re3_none2:
  assumes "letters l" and "digits d1" and "digits d2" and "ends_number t" and "no_component t"
  shows "rx_match False port_re3 (l @ d1 @ CHR ''/'' # d2 @ t) = None"
  using letters_span [OF assms(1,2), of "CHR ''/'' # d2 @ t"] d_s_d_s_d_none2 [OF assms(2,3,4,5)]
  by (simp add: port_re3_eq)


text \<open>What a match says about the text it was found in.\<close>

lemma digits_takeWhile: "takeWhile is_digit s \<noteq> [] \<Longrightarrow> digits (takeWhile is_digit s)"
  by (auto simp: digits_def dest: set_takeWhileD)

lemma letters_takeWhile: "takeWhile is_alpha s \<noteq> [] \<Longrightarrow> letters (takeWhile is_alpha s)"
  by (auto simp: letters_def dest: set_takeWhileD)

lemma digits_last_elim:
  assumes "rx_match ci [Plus is_digit] s = Some (m, t)"
  obtains d where "m = [d]" and "s = d @ t" and "digits d"
proof -
  from assms have ne: "takeWhile is_digit s \<noteq> []"
    and m: "m = [takeWhile is_digit s]" and t: "t = dropWhile is_digit s"
    by (auto simp: digits_last split: if_splits)
  show ?thesis
  proof (rule that)
    show "m = [takeWhile is_digit s]" by (rule m)
    show "s = takeWhile is_digit s @ t" by (simp add: t)
    show "digits (takeWhile is_digit s)" using ne by (rule digits_takeWhile)
  qed
qed

lemma slash_digits_elim:
  assumes "rx_match False [Lit ''/'', Plus is_digit] s = Some (m, t)"
  obtains d where "m = [''/'', d]" and "s = CHR ''/'' # d @ t" and "digits d"
proof -
  from assms obtain r where r: "s = CHR ''/'' # r"
    and ne: "takeWhile is_digit r \<noteq> []"
    and m: "m = [''/'', takeWhile is_digit r]" and t: "t = dropWhile is_digit r"
    by (auto simp: slash_digits split: list.splits if_splits)
  show ?thesis
  proof (rule that)
    show "m = [''/'', takeWhile is_digit r]" by (rule m)
    show "s = CHR ''/'' # takeWhile is_digit r @ t" by (simp add: r t)
    show "digits (takeWhile is_digit r)" using ne by (rule digits_takeWhile)
  qed
qed

lemma d_s_d_elim:
  assumes "rx_match False [Plus is_digit, Lit ''/'', Plus is_digit] s = Some (m, t)"
  obtains d1 d2 where "m = [d1, ''/'', d2]" and "s = d1 @ CHR ''/'' # d2 @ t"
    and "digits d1" and "digits d2"
proof -
  from assms have ne: "takeWhile is_digit s \<noteq> []"
    by (auto simp: digits_slash_digits split: if_splits)
  from assms ne obtain ps where
    ps: "rx_match False [Lit ''/'', Plus is_digit] (dropWhile is_digit s) = Some (ps, t)"
    and m: "m = takeWhile is_digit s # ps"
    by (auto simp: digits_slash_digits split: option.splits)
  from ps obtain d2 where d2: "ps = [''/'', d2]" "dropWhile is_digit s = CHR ''/'' # d2 @ t"
    "digits d2" by (rule slash_digits_elim)
  have "takeWhile is_digit s @ dropWhile is_digit s = s" by simp
  then have s: "s = takeWhile is_digit s @ CHR ''/'' # d2 @ t" by (simp only: d2(2))
  show ?thesis
  proof (rule that)
    show "m = [takeWhile is_digit s, ''/'', d2]" by (simp add: m d2(1))
    show "s = takeWhile is_digit s @ CHR ''/'' # d2 @ t" by (rule s)
    show "digits (takeWhile is_digit s)" using ne by (rule digits_takeWhile)
    show "digits d2" by (rule d2(3))
  qed
qed

lemma s_d_s_d_elim:
  assumes "rx_match False [Lit ''/'', Plus is_digit, Lit ''/'', Plus is_digit] s = Some (m, t)"
  obtains d2 d3 where "m = [''/'', d2, ''/'', d3]" and "s = CHR ''/'' # d2 @ CHR ''/'' # d3 @ t"
    and "digits d2" and "digits d3"
proof -
  from assms obtain r qs where r: "s = CHR ''/'' # r"
    and qs: "rx_match False [Plus is_digit, Lit ''/'', Plus is_digit] r = Some (qs, t)"
    and m: "m = ''/'' # qs"
    by (auto simp: slash_digits_slash_digits split: list.splits if_splits option.splits)
  from qs obtain d2 d3 where q: "qs = [d2, ''/'', d3]" "r = d2 @ CHR ''/'' # d3 @ t"
    "digits d2" "digits d3" by (rule d_s_d_elim)
  show ?thesis
  proof (rule that)
    show "m = [''/'', d2, ''/'', d3]" by (simp add: m q(1))
    show "s = CHR ''/'' # d2 @ CHR ''/'' # d3 @ t" by (simp only: r q(2))
    show "digits d2" by (rule q(3))
    show "digits d3" by (rule q(4))
  qed
qed

lemma d_s_d_s_d_elim:
  assumes "rx_match False [Plus is_digit, Lit ''/'', Plus is_digit, Lit ''/'', Plus is_digit] s
             = Some (m, t)"
  obtains d1 d2 d3 where "m = [d1, ''/'', d2, ''/'', d3]"
    and "s = d1 @ CHR ''/'' # d2 @ CHR ''/'' # d3 @ t"
    and "digits d1" and "digits d2" and "digits d3"
proof -
  from assms have ne: "takeWhile is_digit s \<noteq> []" by (auto simp: d_s_d_s_d split: if_splits)
  from assms ne obtain ps where
    ps: "rx_match False [Lit ''/'', Plus is_digit, Lit ''/'', Plus is_digit] (dropWhile is_digit s)
           = Some (ps, t)"
    and m: "m = takeWhile is_digit s # ps"
    by (auto simp: d_s_d_s_d split: option.splits)
  from ps obtain d2 d3 where q: "ps = [''/'', d2, ''/'', d3]"
    "dropWhile is_digit s = CHR ''/'' # d2 @ CHR ''/'' # d3 @ t"
    "digits d2" "digits d3" by (rule s_d_s_d_elim)
  have "takeWhile is_digit s @ dropWhile is_digit s = s" by simp
  then have s: "s = takeWhile is_digit s @ CHR ''/'' # d2 @ CHR ''/'' # d3 @ t"
    by (simp only: q(2))
  show ?thesis
  proof (rule that)
    show "m = [takeWhile is_digit s, ''/'', d2, ''/'', d3]" by (simp add: m q(1))
    show "s = takeWhile is_digit s @ CHR ''/'' # d2 @ CHR ''/'' # d3 @ t" by (rule s)
    show "digits (takeWhile is_digit s)" using ne by (rule digits_takeWhile)
    show "digits d2" by (rule q(3))
    show "digits d3" by (rule q(4))
  qed
qed

lemma re1_elim:
  assumes "rx_match False port_re1 s = Some (m, t)"
  obtains l d where "m = [l, d]" and "s = l @ d @ t" and "letters l" and "digits d"
proof -
  from assms have ne: "takeWhile is_alpha s \<noteq> []" by (auto simp: port_re1_eq split: if_splits)
  from assms ne obtain ps where
    ps: "rx_match False [Plus is_digit] (dropWhile is_alpha s) = Some (ps, t)"
    and m: "m = takeWhile is_alpha s # ps"
    by (auto simp: port_re1_eq split: option.splits)
  from ps obtain d where d: "ps = [d]" "dropWhile is_alpha s = d @ t" "digits d"
    by (rule digits_last_elim)
  have "takeWhile is_alpha s @ dropWhile is_alpha s = s" by simp
  then have s: "s = takeWhile is_alpha s @ d @ t" by (simp only: d(2))
  show ?thesis
  proof (rule that)
    show "m = [takeWhile is_alpha s, d]" by (simp add: m d(1))
    show "s = takeWhile is_alpha s @ d @ t" by (rule s)
    show "letters (takeWhile is_alpha s)" using ne by (rule letters_takeWhile)
    show "digits d" by (rule d(3))
  qed
qed

lemma re2_elim:
  assumes "rx_match False port_re2 s = Some (m, t)"
  obtains l d1 d2 where "m = [l, d1, ''/'', d2]" and "s = l @ d1 @ CHR ''/'' # d2 @ t"
    and "letters l" and "digits d1" and "digits d2"
proof -
  from assms have ne: "takeWhile is_alpha s \<noteq> []" by (auto simp: port_re2_eq split: if_splits)
  from assms ne obtain ps where
    ps: "rx_match False [Plus is_digit, Lit ''/'', Plus is_digit] (dropWhile is_alpha s) = Some (ps, t)"
    and m: "m = takeWhile is_alpha s # ps"
    by (auto simp: port_re2_eq split: option.splits)
  from ps obtain d1 d2 where d: "ps = [d1, ''/'', d2]"
    "dropWhile is_alpha s = d1 @ CHR ''/'' # d2 @ t"
    "digits d1" "digits d2" by (rule d_s_d_elim)
  have "takeWhile is_alpha s @ dropWhile is_alpha s = s" by simp
  then have s: "s = takeWhile is_alpha s @ d1 @ CHR ''/'' # d2 @ t" by (simp only: d(2))
  show ?thesis
  proof (rule that)
    show "m = [takeWhile is_alpha s, d1, ''/'', d2]" by (simp add: m d(1))
    show "s = takeWhile is_alpha s @ d1 @ CHR ''/'' # d2 @ t" by (rule s)
    show "letters (takeWhile is_alpha s)" using ne by (rule letters_takeWhile)
    show "digits d1" by (rule d(3))
    show "digits d2" by (rule d(4))
  qed
qed

lemma re3_elim:
  assumes "rx_match False port_re3 s = Some (m, t)"
  obtains l d1 d2 d3 where "m = [l, d1, ''/'', d2, ''/'', d3]"
    and "s = l @ d1 @ CHR ''/'' # d2 @ CHR ''/'' # d3 @ t"
    and "letters l" and "digits d1" and "digits d2" and "digits d3"
proof -
  from assms have ne: "takeWhile is_alpha s \<noteq> []" by (auto simp: port_re3_eq split: if_splits)
  from assms ne obtain ps where
    ps: "rx_match False [Plus is_digit, Lit ''/'', Plus is_digit, Lit ''/'', Plus is_digit]
           (dropWhile is_alpha s) = Some (ps, t)"
    and m: "m = takeWhile is_alpha s # ps"
    by (auto simp: port_re3_eq split: option.splits)
  from ps obtain d1 d2 d3 where d: "ps = [d1, ''/'', d2, ''/'', d3]"
    "dropWhile is_alpha s = d1 @ CHR ''/'' # d2 @ CHR ''/'' # d3 @ t"
    "digits d1" "digits d2" "digits d3" by (rule d_s_d_s_d_elim)
  have "takeWhile is_alpha s @ dropWhile is_alpha s = s" by simp
  then have s: "s = takeWhile is_alpha s @ d1 @ CHR ''/'' # d2 @ CHR ''/'' # d3 @ t"
    by (simp only: d(2))
  show ?thesis
  proof (rule that)
    show "m = [takeWhile is_alpha s, d1, ''/'', d2, ''/'', d3]" by (simp add: m d(1))
    show "s = takeWhile is_alpha s @ d1 @ CHR ''/'' # d2 @ CHR ''/'' # d3 @ t" by (rule s)
    show "letters (takeWhile is_alpha s)" using ne by (rule letters_takeWhile)
    show "digits d1" by (rule d(3))
    show "digits d2" by (rule d(4))
    show "digits d3" by (rule d(5))
  qed
qed


section \<open>Numbers, white space and the prefix table\<close>

declare show_nat.simps [simp del]

lemma digit_char:
  assumes "n < 10"
  shows "is_digit (''0123456789'' ! n)" and "of_char (''0123456789'' ! n) - 48 = n"
proof -
  from assms have "n \<in> {0, 1, 2, 3, 4, 5, 6, 7, 8, 9}" by simp arith
  then show "is_digit (''0123456789'' ! n)" and "of_char (''0123456789'' ! n) - 48 = n"
    by (auto simp: is_digit_def)
qed

lemma digit_value_le: "is_digit c \<Longrightarrow> (of_char c :: nat) - 48 \<le> 9"
  by (auto simp: is_digit_def)

lemma show_nat_digits: "digits (show_nat n)"
proof (induction n rule: show_nat.induct)
  case (1 n)
  show ?case
  proof (cases "n < 10")
    case True
    then show ?thesis by (subst show_nat.simps) (simp add: digits_def digit_char)
  next
    case False
    with 1 have "digits (show_nat (n div 10))" by simp
    moreover have "is_digit (''0123456789'' ! (n mod 10))" by (rule digit_char) simp
    ultimately show ?thesis using False by (subst show_nat.simps) (simp add: digits_def)
  qed
qed

lemma digits_value_snoc: "digits_value (d @ [c]) = 10 * digits_value d + (of_char c - 48)"
  by (simp add: digits_value_def)

lemma digits_value_show: "digits_value (show_nat n) = n"
proof (induction n rule: show_nat.induct)
  case (1 n)
  show ?case
  proof (cases "n < 10")
    case True
    then show ?thesis by (subst show_nat.simps) (simp add: digits_value_def digit_char)
  next
    case False
    with 1 have "digits_value (show_nat (n div 10)) = n div 10" by simp
    moreover have "of_char (''0123456789'' ! (n mod 10)) - 48 = n mod 10"
      by (rule digit_char) simp
    ultimately show ?thesis using False
      by (subst show_nat.simps) (simp add: digits_value_snoc)
  qed
qed

lemma canon_num_digits: "digits (canon_num d)"
  by (simp add: canon_num_def show_nat_digits)

lemma canon_num_idem: "canon_num (canon_num d) = canon_num d"
  by (simp add: canon_num_def digits_value_show)

lemma digits_value_bound: "\<forall>c \<in> set d. is_digit c \<Longrightarrow> digits_value d < 10 ^ length d"
proof (induction d rule: rev_induct)
  case Nil
  then show ?case by (simp add: digits_value_def)
next
  case (snoc c d)
  then have "digits_value d < 10 ^ length d" by simp
  moreover from snoc.prems have "(of_char c :: nat) - 48 \<le> 9" by (simp add: digit_value_le)
  ultimately show ?case by (simp add: digits_value_snoc)
qed

lemma length_show_nat: "n < 10 ^ k \<Longrightarrow> 0 < k \<Longrightarrow> length (show_nat n) \<le> k"
proof (induction n arbitrary: k rule: show_nat.induct)
  case (1 n)
  show ?case
  proof (cases "n < 10")
    case True
    with 1(3) show ?thesis by (subst show_nat.simps) simp
  next
    case False
    obtain j where k: "k = Suc j" using 1(3) by (cases k) auto
    from False 1(2) k have j: "0 < j" by (cases j) auto
    from 1(2) k have "n div 10 < 10 ^ j" by (simp add: less_mult_imp_div_less mult.commute)
    with 1(1) [OF False _ j] have "length (show_nat (n div 10)) \<le> j" by simp
    with False k show ?thesis by (subst show_nat.simps) simp
  qed
qed

lemma length_canon_num: "digits d \<Longrightarrow> length (canon_num d) \<le> length d"
  unfolding canon_num_def
  by (rule length_show_nat) (auto simp: digits_def digits_value_bound)

lemma dropWhile_last: "dropWhile P xs \<noteq> [] \<Longrightarrow> last (dropWhile P xs) = last xs"
  by (induction xs) (auto split: if_splits)

lemma dropWhile_keeps: "xs \<noteq> [] \<Longrightarrow> \<not> P (last xs) \<Longrightarrow> dropWhile P xs \<noteq> []"
  by (auto simp: dropWhile_eq_Nil_conv)

lemma trimmed_strip: "trimmed (strip s)"
proof (cases "dropWhile is_space s = []")
  case True
  have "strip s = []" by (simp only: strip_def True) simp
  then show ?thesis by (simp add: trimmed_def)
next
  case False
  define u where "u = dropWhile is_space s"
  define v where "v = dropWhile is_space (rev u)"
  from False have u: "u \<noteq> []" "\<not> is_space (hd u)" by (simp_all add: u_def hd_dropWhile)
  then have "rev u \<noteq> []" "\<not> is_space (last (rev u))" by (simp_all add: last_rev)
  then have v: "v \<noteq> []" unfolding v_def by (rule dropWhile_keeps)
  then have "\<not> is_space (hd v)" by (simp add: v_def hd_dropWhile)
  moreover from v have "last v = last (rev u)" unfolding v_def by (rule dropWhile_last)
  ultimately have "\<not> is_space (last (rev v))" "\<not> is_space (hd (rev v))"
    using u v by (simp_all add: last_rev hd_rev)
  moreover have "strip s = rev v" by (simp add: strip_def u_def v_def)
  ultimately show ?thesis using v by (simp add: trimmed_def)
qed

lemma strip_trimmed: "trimmed s \<Longrightarrow> strip s = s"
proof (cases s)
  case Nil
  then show ?thesis by (simp add: strip_def)
next
  case (Cons a r)
  assume "trimmed s"
  with Cons have a: "\<not> is_space a" and l: "\<not> is_space (last s)" by (simp_all add: trimmed_def)
  from a Cons have 1: "dropWhile is_space s = s" by simp
  from Cons have ne: "s \<noteq> []" by simp
  then have "rev s \<noteq> []" by simp
  moreover from ne l have "\<not> is_space (hd (rev s))" by (simp add: hd_rev)
  ultimately have "dropWhile is_space (rev s) = rev s" by (cases "rev s") auto
  with 1 show ?thesis by (simp add: strip_def)
qed

lemma strip_keep:
  assumes "u \<noteq> []" and "\<not> is_space (hd u)" and "\<not> is_space (last u)"
  shows "strip (u @ r) = u @ rstrip r"
proof -
  from assms(1,2) have 1: "dropWhile is_space (u @ r) = u @ r" by (cases u) auto
  from assms(1,3) have 2: "dropWhile is_space (rev u) = rev u"
    by (cases "rev u") (auto simp: last_rev [symmetric] simp del: last_rev)
  have "dropWhile is_space (rev r @ rev u) = dropWhile is_space (rev r) @ rev u"
    by (simp add: dropWhile_append 2 dropWhile_eq_Nil_conv)
  with 1 show ?thesis by (simp add: strip_def rstrip_def)
qed

lemma rstrip_prefix: "\<exists>z. r = rstrip r @ z"
proof -
  have "rstrip r @ rev (takeWhile is_space (rev r))
          = rev (takeWhile is_space (rev r) @ dropWhile is_space (rev r))"
    by (simp only: rstrip_def rev_append)
  also have "\<dots> = rev (rev r)" by (simp only: takeWhile_dropWhile_id)
  also have "\<dots> = r" by simp
  finally have "r = rstrip r @ rev (takeWhile is_space (rev r))" by (rule sym)
  then show ?thesis ..
qed

lemma ends_number_rstrip: "ends_number r \<Longrightarrow> ends_number (rstrip r)"
proof -
  assume a: "ends_number r"
  obtain z where z: "r = rstrip r @ z" using rstrip_prefix by blast
  show ?thesis
  proof (cases "rstrip r")
    case Nil
    then show ?thesis by (simp add: ends_number_def)
  next
    case (Cons c w)
    with z have "r = c # w @ z" by simp
    with a Cons show ?thesis by (simp add: ends_number_def)
  qed
qed

lemma no_component_rstrip: "no_component r \<Longrightarrow> no_component (rstrip r)"
proof -
  assume a: "no_component r"
  obtain z where z: "r = rstrip r @ z" using rstrip_prefix by blast
  show ?thesis unfolding no_component_def
  proof
    assume "\<exists>c w. rstrip r = CHR ''/'' # c # w \<and> is_digit c"
    then obtain c w where "rstrip r = CHR ''/'' # c # w" "is_digit c" by blast
    with z have "r = CHR ''/'' # c # (w @ z)" "is_digit c" by simp_all
    with a show False by (auto simp: no_component_def)
  qed
qed

text \<open>The prefix table: what the loop does for any table, then the facts of this one.\<close>

lemma apm_unchanged:
  "\<forall>(l, sh) \<in> set m. \<not> startswith s l \<Longrightarrow> apply_prefix_map m s = s"
  by (induction m) auto

lemma startswith_length: "startswith s l \<Longrightarrow> length l \<le> length s"
proof -
  assume "startswith s l"
  then have "length (take (length l) s) = length l" by (simp add: startswith_def)
  then show ?thesis by simp
qed

lemma apm_step_length:
  "startswith s l \<Longrightarrow> length sh < length l \<Longrightarrow> length (sh @ drop (length l) s) < length s"
  using startswith_length [of s l] by simp

lemma apm_length:
  assumes "\<forall>(l, sh) \<in> set m. length sh < length l"
  shows "length (apply_prefix_map m s) \<le> length s"
  using assms
proof (induction m)
  case Nil
  then show ?case by simp
next
  case (Cons a m)
  obtain l sh where a: "a = (l, sh)" by (cases a)
  show ?case
  proof (cases "startswith s l")
    case True
    with Cons.prems a have "length (sh @ drop (length l) s) < length s"
      by (intro apm_step_length) auto
    with True a show ?thesis by simp
  next
    case False
    with Cons a show ?thesis by simp
  qed
qed

lemma apm_shorter:
  assumes "\<forall>(l, sh) \<in> set m. length sh < length l"
    and "\<exists>(l, sh) \<in> set m. startswith s l"
  shows "length (apply_prefix_map m s) < length s"
  using assms
proof (induction m)
  case Nil
  then show ?case by simp
next
  case (Cons a m)
  obtain l sh where a: "a = (l, sh)" by (cases a)
  show ?case
  proof (cases "startswith s l")
    case True
    with Cons.prems(1) a have "length (sh @ drop (length l) s) < length s"
      by (intro apm_step_length) auto
    with True a show ?thesis by simp
  next
    case False
    with Cons a show ?thesis by simp
  qed
qed

lemma apm_trimmed:
  assumes "\<forall>(l, sh) \<in> set m. sh \<noteq> [] \<and> \<not> is_space (hd sh) \<and> \<not> is_space (last sh)"
    and "trimmed s"
  shows "trimmed (apply_prefix_map m s)"
  using assms(1)
proof (induction m)
  case Nil
  with assms(2) show ?case by simp
next
  case (Cons a m)
  obtain l sh where a: "a = (l, sh)" by (cases a)
  show ?case
  proof (cases "startswith s l")
    case False
    with Cons a show ?thesis by simp
  next
    case True
    from Cons.prems a have sh: "sh \<noteq> []" "\<not> is_space (hd sh)" "\<not> is_space (last sh)" by auto
    have "\<not> is_space (last (sh @ drop (length l) s))"
    proof (cases "drop (length l) s = []")
      case True
      with sh show ?thesis by simp
    next
      case False
      then have "s \<noteq> []" by auto
      with assms(2) have "\<not> is_space (last s)" by (simp add: trimmed_def)
      with False show ?thesis by (simp add: last_drop)
    qed
    with sh True a show ?thesis by (simp add: trimmed_def)
  qed
qed

lemma apm_before_digit:
  assumes "\<forall>(l, sh) \<in> set m. \<forall>c \<in> set l. \<not> is_digit c" and "is_digit d"
  shows "apply_prefix_map m (code @ d # r) = apply_prefix_map m code @ d # r"
  using assms(1)
proof (induction m)
  case Nil
  then show ?case by simp
next
  case (Cons a m)
  obtain l sh where a: "a = (l, sh)" by (cases a)
  from Cons.prems a assms(2) have dl: "d \<notin> set l" by auto
  have sw: "startswith (code @ d # r) l = startswith code l"
  proof (cases "length l \<le> length code")
    case True
    then show ?thesis by (simp add: startswith_def)
  next
    case False
    then have "take (length l) (code @ d # r) = code @ d # take (length l - Suc (length code)) r"
      by (simp add: take_Cons' not_le)
    moreover have "code @ d # take (length l - Suc (length code)) r \<noteq> l"
    proof
      assume "code @ d # take (length l - Suc (length code)) r = l"
      then have "set (code @ d # take (length l - Suc (length code)) r) = set l" by simp
      then have "d \<in> set l" by auto
      with dl show False by simp
    qed
    moreover from False have "take (length l) code \<noteq> l" by auto
    ultimately show ?thesis by (simp add: startswith_def)
  qed
  show ?case
  proof (cases "startswith code l")
    case True
    then have "length l \<le> length code" by (rule startswith_length)
    with True sw a show ?thesis by simp
  next
    case False
    with sw a Cons show ?thesis by simp
  qed
qed

lemma apm_letters:
  assumes "\<forall>(l, sh) \<in> set m. letters sh" and "letters code"
  shows "letters (apply_prefix_map m code)"
  using assms(1)
proof (induction m)
  case Nil
  with assms(2) show ?case by simp
next
  case (Cons a m)
  obtain l sh where a: "a = (l, sh)" by (cases a)
  from Cons.prems a have "letters sh" by auto
  moreover from assms(2) have "\<forall>c \<in> set (drop (length l) code). is_alpha c"
    by (auto simp: letters_def dest: in_set_dropD)
  ultimately have "letters (sh @ drop (length l) code)" by (auto simp: letters_def)
  with Cons a show ?case by simp
qed

lemma PREFIX_MAP_short: "\<forall>(l, sh) \<in> set PREFIX_MAP. length sh < length l"
  by (simp add: PREFIX_MAP_def)

lemma PREFIX_MAP_space:
  "\<forall>(l, sh) \<in> set PREFIX_MAP. sh \<noteq> [] \<and> \<not> is_space (hd sh) \<and> \<not> is_space (last sh)"
  by (simp add: PREFIX_MAP_def is_space_def)

lemma PREFIX_MAP_no_digit: "\<forall>(l, sh) \<in> set PREFIX_MAP. \<forall>c \<in> set l. \<not> is_digit c"
  by (simp add: PREFIX_MAP_def is_digit_def)

lemma PREFIX_MAP_letters: "\<forall>(l, sh) \<in> set PREFIX_MAP. letters sh"
  by (simp add: PREFIX_MAP_def letters_def is_alpha_def)

lemma starts_with_long_iff: "starts_with_long s \<longleftrightarrow> (\<exists>(l, sh) \<in> set PREFIX_MAP. startswith s l)"
  by (simp add: starts_with_long_def list_ex_iff)


section \<open>Properties of the port canonicaliser\<close>

lemma normalize_port_match3:
  assumes "apply_prefix_map PREFIX_MAP (strip x) = l @ d1 @ CHR ''/'' # d2 @ CHR ''/'' # d3 @ t"
    and "letters l" and "digits d1" and "digits d2" and "digits d3" and "ends_number t"
  shows "normalize_port x = l @ canon_num d1 @ CHR ''/'' # canon_num d2 @ CHR ''/'' # canon_num d3"
  using re3_intro [OF assms(2-6)] by (simp add: normalize_port_def assms(1))

lemma normalize_port_match2:
  assumes "apply_prefix_map PREFIX_MAP (strip x) = l @ d1 @ CHR ''/'' # d2 @ t"
    and "letters l" and "digits d1" and "digits d2" and "ends_number t" and "no_component t"
  shows "normalize_port x = l @ canon_num d1 @ CHR ''/'' # canon_num d2"
  using re3_none2 [OF assms(2-6)] re2_intro [OF assms(2-5)]
  by (simp add: normalize_port_def assms(1))

lemma normalize_port_match1:
  assumes "apply_prefix_map PREFIX_MAP (strip x) = l @ d @ t"
    and "letters l" and "digits d" and "ends_number t" and "no_component t"
  shows "normalize_port x = l @ canon_num d"
  using re3_none1 [OF assms(2-5)] re2_none [OF assms(2-5)] re1_intro [OF assms(2-4)]
  by (simp add: normalize_port_def assms(1))

lemma prepared:
  assumes "letters code" and "body \<noteq> []" and "is_digit (hd body)" and "is_digit (last body)"
  shows "apply_prefix_map PREFIX_MAP (strip (code @ body @ rest))
           = apply_prefix_map PREFIX_MAP code @ body @ rstrip rest"
proof -
  from assms(1) have c: "code \<noteq> []" "is_alpha (hd code)" by (auto simp: letters_def)
  have "strip ((code @ body) @ rest) = (code @ body) @ rstrip rest"
  proof (rule strip_keep)
    show "code @ body \<noteq> []" using c by simp
    show "\<not> is_space (hd (code @ body))" using c by (simp add: alpha_not_space)
    show "\<not> is_space (last (code @ body))" using assms(2,4) by (simp add: digit_not_space)
  qed
  then have 1: "strip (code @ body @ rest) = code @ body @ rstrip rest" by simp
  from assms(2) obtain a w where b: "body = a # w" by (cases body) auto
  with assms(3) have "is_digit a" by simp
  with PREFIX_MAP_no_digit
  have "apply_prefix_map PREFIX_MAP (code @ a # (w @ rstrip rest))
          = apply_prefix_map PREFIX_MAP code @ a # (w @ rstrip rest)"
    by (rule apm_before_digit)
  with 1 b show ?thesis by simp
qed

lemma digits_ends: "digits d \<Longrightarrow> d \<noteq> [] \<and> is_digit (hd d) \<and> is_digit (last d)"
  by (cases d) (auto simp: digits_def)

text \<open>
  C10. An input that begins with letters and one, two or three numbers separated by
  slashes, and that goes on with any text that does not continue the last number (and,
  when there are fewer than three numbers, does not add a further one), is mapped to the
  canonical id of that beginning alone: the letters with their long prefix replaced, and
  the numbers without leading zeros. The trailing text is dropped, as in \<open>Gi1/0/1.100\<close>,
  which goes to \<open>Gi1/0/1\<close>.
\<close>

theorem normalize_port_truncates:
  assumes "letters code" and "nums \<noteq> []" and "length nums \<le> 3"
    and "\<forall>d \<in> set nums. digits d"
    and "ends_number rest" and "length nums < 3 \<longrightarrow> no_component rest"
  shows "normalize_port (code @ join ''/'' nums @ rest)
           = apply_prefix_map PREFIX_MAP code @ join ''/'' (map canon_num nums)"
proof -
  from assms(2,3) consider
      d1 where "nums = [d1]"
    | d1 d2 where "nums = [d1, d2]"
    | d1 d2 d3 where "nums = [d1, d2, d3]"
    by (cases nums; cases "tl nums"; cases "tl (tl nums)"; cases "tl (tl (tl nums))") auto
  then show ?thesis
  proof cases
    case 1
    with assms(4,6) have d: "digits d1" and nc: "no_component rest" by simp_all
    have "apply_prefix_map PREFIX_MAP (strip (code @ d1 @ rest))
            = apply_prefix_map PREFIX_MAP code @ d1 @ rstrip rest"
      using assms(1) digits_ends [OF d] by (intro prepared) simp_all
    then have "normalize_port (code @ d1 @ rest) = apply_prefix_map PREFIX_MAP code @ canon_num d1"
      using apm_letters [OF PREFIX_MAP_letters assms(1)] d
            ends_number_rstrip [OF assms(5)] no_component_rstrip [OF nc]
      by (rule normalize_port_match1)
    with 1 show ?thesis by simp
  next
    case 2
    with assms(4,6) have d: "digits d1" "digits d2" and nc: "no_component rest" by simp_all
    have "apply_prefix_map PREFIX_MAP (strip (code @ (d1 @ CHR ''/'' # d2) @ rest))
            = apply_prefix_map PREFIX_MAP code @ (d1 @ CHR ''/'' # d2) @ rstrip rest"
      using assms(1) digits_ends [OF d(1)] digits_ends [OF d(2)] by (intro prepared) simp_all
    then have "apply_prefix_map PREFIX_MAP (strip (code @ d1 @ CHR ''/'' # d2 @ rest))
            = apply_prefix_map PREFIX_MAP code @ d1 @ CHR ''/'' # d2 @ rstrip rest" by simp
    then have "normalize_port (code @ d1 @ CHR ''/'' # d2 @ rest)
            = apply_prefix_map PREFIX_MAP code @ canon_num d1 @ CHR ''/'' # canon_num d2"
      using apm_letters [OF PREFIX_MAP_letters assms(1)] d
            ends_number_rstrip [OF assms(5)] no_component_rstrip [OF nc]
      by (rule normalize_port_match2)
    with 2 show ?thesis by simp
  next
    case 3
    with assms(4) have d: "digits d1" "digits d2" "digits d3" by simp_all
    have "apply_prefix_map PREFIX_MAP (strip (code @ (d1 @ CHR ''/'' # d2 @ CHR ''/'' # d3) @ rest))
            = apply_prefix_map PREFIX_MAP code @ (d1 @ CHR ''/'' # d2 @ CHR ''/'' # d3) @ rstrip rest"
      using assms(1) digits_ends [OF d(1)] digits_ends [OF d(3)] by (intro prepared) simp_all
    then have "apply_prefix_map PREFIX_MAP (strip (code @ d1 @ CHR ''/'' # d2 @ CHR ''/'' # d3 @ rest))
            = apply_prefix_map PREFIX_MAP code @ d1 @ CHR ''/'' # d2 @ CHR ''/'' # d3 @ rstrip rest"
      by simp
    then have "normalize_port (code @ d1 @ CHR ''/'' # d2 @ CHR ''/'' # d3 @ rest)
            = apply_prefix_map PREFIX_MAP code @ canon_num d1 @ CHR ''/'' # canon_num d2
                @ CHR ''/'' # canon_num d3"
      using apm_letters [OF PREFIX_MAP_letters assms(1)] d ends_number_rstrip [OF assms(5)]
      by (rule normalize_port_match3)
    with 3 show ?thesis by simp
  qed
qed

theorem normalize_port_truncates_witness:
  "normalize_port ''Gi1/0/1.100'' = ''Gi1/0/1''
   \<and> normalize_port ''GigabitEthernet01/002.5 '' = ''Gi1/2''"
proof -
  have a: "letters ''Gi''" "[''1'', ''0'', ''1''] \<noteq> []" "length [''1'', ''0'', ''1''] \<le> 3"
    "\<forall>d \<in> set [''1'', ''0'', ''1'']. digits d" "ends_number ''.100''"
    "length [''1'', ''0'', ''1''] < 3 \<longrightarrow> no_component ''.100''"
    by (simp_all add: letters_def digits_def is_alpha_def is_digit_def ends_number_def)
  have b: "letters ''GigabitEthernet''" "[''01'', ''002''] \<noteq> []" "length [''01'', ''002''] \<le> 3"
    "\<forall>d \<in> set [''01'', ''002'']. digits d" "ends_number ''.5 ''"
    "length [''01'', ''002''] < 3 \<longrightarrow> no_component ''.5 ''"
    by (simp_all add: letters_def digits_def is_alpha_def is_digit_def ends_number_def
                      no_component_def)
  have ra: "apply_prefix_map PREFIX_MAP ''Gi'' @ join ''/'' (map canon_num [''1'', ''0'', ''1''])
              = ''Gi1/0/1''" by code_simp
  have rb: "apply_prefix_map PREFIX_MAP ''GigabitEthernet'' @ join ''/'' (map canon_num [''01'', ''002''])
              = ''Gi1/2''" by code_simp
  from normalize_port_truncates [OF a] normalize_port_truncates [OF b] ra rb
  show ?thesis by simp
qed


section \<open>Idempotence of the canonicalisers\<close>

lemma normalize_port_cases [case_names none one two three]:
  obtains
    (none) "normalize_port x = apply_prefix_map PREFIX_MAP (strip x)"
      and "rx_match False port_re3 (normalize_port x) = None"
      and "rx_match False port_re2 (normalize_port x) = None"
      and "rx_match False port_re1 (normalize_port x) = None"
  | (one) l d t where "apply_prefix_map PREFIX_MAP (strip x) = l @ d @ t"
      and "normalize_port x = l @ canon_num d" and "letters l" and "digits d"
  | (two) l d1 d2 t where "apply_prefix_map PREFIX_MAP (strip x) = l @ d1 @ CHR ''/'' # d2 @ t"
      and "normalize_port x = l @ canon_num d1 @ CHR ''/'' # canon_num d2"
      and "letters l" and "digits d1" and "digits d2"
  | (three) l d1 d2 d3 t where
        "apply_prefix_map PREFIX_MAP (strip x) = l @ d1 @ CHR ''/'' # d2 @ CHR ''/'' # d3 @ t"
      and "normalize_port x
             = l @ canon_num d1 @ CHR ''/'' # canon_num d2 @ CHR ''/'' # canon_num d3"
      and "letters l" and "digits d1" and "digits d2" and "digits d3"
proof -
  define p where "p = apply_prefix_map PREFIX_MAP (strip x)"
  show ?thesis
  proof (cases "rx_match False port_re3 p")
    case (Some r)
    obtain m t where r: "r = (m, t)" by (cases r)
    from Some r have "rx_match False port_re3 p = Some (m, t)" by simp
    then obtain l d1 d2 d3 where e: "m = [l, d1, ''/'', d2, ''/'', d3]"
      "p = l @ d1 @ CHR ''/'' # d2 @ CHR ''/'' # d3 @ t"
      "letters l" "digits d1" "digits d2" "digits d3"
      by (rule re3_elim)
    from Some r e(1) have "normalize_port x
        = l @ canon_num d1 @ CHR ''/'' # canon_num d2 @ CHR ''/'' # canon_num d3"
      by (simp add: normalize_port_def p_def [symmetric])
    with e(2) show ?thesis unfolding p_def using e(3-6) by (rule three)
  next
    case n3: None
    show ?thesis
    proof (cases "rx_match False port_re2 p")
      case (Some r)
      obtain m t where r: "r = (m, t)" by (cases r)
      from Some r have "rx_match False port_re2 p = Some (m, t)" by simp
      then obtain l d1 d2 where e: "m = [l, d1, ''/'', d2]"
        "p = l @ d1 @ CHR ''/'' # d2 @ t" "letters l" "digits d1" "digits d2"
        by (rule re2_elim)
      from Some r n3 e(1) have "normalize_port x = l @ canon_num d1 @ CHR ''/'' # canon_num d2"
        by (simp add: normalize_port_def p_def [symmetric])
      with e(2) show ?thesis unfolding p_def using e(3-5) by (rule two)
    next
      case n2: None
      show ?thesis
      proof (cases "rx_match False port_re1 p")
        case (Some r)
        obtain m t where r: "r = (m, t)" by (cases r)
        from Some r have "rx_match False port_re1 p = Some (m, t)" by simp
        then obtain l d where e: "m = [l, d]" "p = l @ d @ t" "letters l" "digits d"
          by (rule re1_elim)
        from Some r n3 n2 e(1) have "normalize_port x = l @ canon_num d"
          by (simp add: normalize_port_def p_def [symmetric])
        with e(2) show ?thesis unfolding p_def using e(3-4) by (rule one)
      next
        case None
        with n3 n2 have y: "normalize_port x = p"
          by (simp add: normalize_port_def p_def [symmetric])
        show ?thesis
        proof (rule none)
          show "normalize_port x = apply_prefix_map PREFIX_MAP (strip x)" using y by (simp add: p_def)
        qed (simp_all add: y None n2 n3)
      qed
    qed
  qed
qed

lemma trimmed_prepared: "trimmed (apply_prefix_map PREFIX_MAP (strip x))"
  using PREFIX_MAP_space trimmed_strip by (rule apm_trimmed)

lemma trimmed_id:
  assumes "letters l" and "digits d"
  shows "trimmed (l @ u @ d)"
proof -
  from assms(1) have "l \<noteq> []" "\<not> is_space (hd l)"
    by (auto simp: letters_def alpha_not_space)
  moreover from assms(2) have "d \<noteq> []" "\<not> is_space (last d)"
    using digits_ends [OF assms(2)] by (auto simp: digit_not_space)
  ultimately show ?thesis by (simp add: trimmed_def)
qed

lemma normalize_port_trimmed: "trimmed (normalize_port x)"
proof (cases x rule: normalize_port_cases)
  case none
  then show ?thesis by (simp add: trimmed_prepared)
next
  case (one l d t)
  with trimmed_id [OF one(3) canon_num_digits, of "[]" d] show ?thesis by simp
next
  case (two l d1 d2 t)
  with trimmed_id [OF two(3) canon_num_digits, of "canon_num d1 @ ''/''" d2] show ?thesis by simp
next
  case (three l d1 d2 d3 t)
  with trimmed_id [OF three(3) canon_num_digits,
                   of "canon_num d1 @ CHR ''/'' # canon_num d2 @ ''/''" d3]
  show ?thesis by simp
qed

lemma normalize_port_length:
  "length (normalize_port x) \<le> length (apply_prefix_map PREFIX_MAP (strip x))"
proof (cases x rule: normalize_port_cases)
  case none
  then show ?thesis by simp
next
  case (one l d t)
  with length_canon_num [OF one(4)] show ?thesis by simp
next
  case (two l d1 d2 t)
  with length_canon_num [OF two(4)] length_canon_num [OF two(5)] show ?thesis by simp
next
  case (three l d1 d2 d3 t)
  with length_canon_num [OF three(4)] length_canon_num [OF three(5)]
       length_canon_num [OF three(6)]
  show ?thesis by simp
qed

lemma normalize_port_fixed:
  assumes "\<not> starts_with_long (normalize_port x)"
  shows "normalize_port (normalize_port x) = normalize_port x"
proof -
  define y where "y = normalize_port x"
  have "trimmed y" by (simp add: y_def normalize_port_trimmed)
  then have "strip y = y" by (rule strip_trimmed)
  moreover from assms have "apply_prefix_map PREFIX_MAP y = y"
    by (intro apm_unchanged) (auto simp: y_def starts_with_long_iff)
  ultimately have py: "apply_prefix_map PREFIX_MAP (strip y) = y" by simp
  have "normalize_port y = y"
  proof (cases x rule: normalize_port_cases)
    case none
    from none(2-4) have "rx_match False port_re3 y = None" "rx_match False port_re2 y = None"
      "rx_match False port_re1 y = None" by (simp_all only: y_def)
    then show ?thesis by (simp add: normalize_port_def py)
  next
    case (one l d t)
    have "normalize_port y = l @ canon_num (canon_num d)"
    proof (rule normalize_port_match1)
      show "apply_prefix_map PREFIX_MAP (strip y) = l @ canon_num d @ []"
        using py one(2) by (simp add: y_def)
    qed (simp_all add: one(3) canon_num_digits ends_number_def no_component_def)
    with one(2) show ?thesis by (simp add: canon_num_idem y_def)
  next
    case (two l d1 d2 t)
    have "normalize_port y = l @ canon_num (canon_num d1) @ CHR ''/'' # canon_num (canon_num d2)"
    proof (rule normalize_port_match2)
      show "apply_prefix_map PREFIX_MAP (strip y)
              = l @ canon_num d1 @ CHR ''/'' # canon_num d2 @ []"
        using py two(2) by (simp add: y_def)
    qed (simp_all add: two(3) canon_num_digits ends_number_def no_component_def)
    with two(2) show ?thesis by (simp add: canon_num_idem y_def)
  next
    case (three l d1 d2 d3 t)
    have "normalize_port y = l @ canon_num (canon_num d1) @ CHR ''/'' # canon_num (canon_num d2)
                               @ CHR ''/'' # canon_num (canon_num d3)"
    proof (rule normalize_port_match3)
      show "apply_prefix_map PREFIX_MAP (strip y)
              = l @ canon_num d1 @ CHR ''/'' # canon_num d2 @ CHR ''/'' # canon_num d3 @ []"
        using py three(2) by (simp add: y_def)
    qed (simp_all add: three(3) canon_num_digits ends_number_def)
    with three(2) show ?thesis by (simp add: canon_num_idem y_def)
  qed
  then show ?thesis by (simp add: y_def)
qed

lemma normalize_port_moves:
  assumes "starts_with_long (normalize_port x)"
  shows "normalize_port (normalize_port x) \<noteq> normalize_port x"
proof -
  define y where "y = normalize_port x"
  have "strip y = y" by (simp add: y_def normalize_port_trimmed strip_trimmed)
  moreover have "length (apply_prefix_map PREFIX_MAP y) < length y"
    using PREFIX_MAP_short assms
    by (intro apm_shorter) (simp_all add: y_def starts_with_long_iff)
  ultimately have "length (normalize_port y) < length y"
    using normalize_port_length [of y] by simp
  then show ?thesis unfolding y_def by auto
qed

text \<open>The MAC canonicaliser: the length of its result, and the dots it leaves.\<close>

lemma length_join_chunks2:
  "length (join '':'' (chunks2 m)) = length m + (length m - 1) div 2"
proof (induction m rule: chunks2.induct)
  case 1
  then show ?case by simp
next
  case (2 a)
  then show ?case by simp
next
  case (3 a b r)
  show ?case
  proof (cases "chunks2 r")
    case Nil
    then have "r = []" by (cases r rule: chunks2.cases) auto
    with Nil show ?thesis by simp
  next
    case (Cons c cs)
    then have "r \<noteq> []" by auto
    then have "0 < length r" by simp
    then have "Suc ((length r - 1) div 2) = Suc (length r) div 2" by arith
    with Cons 3 show ?thesis by simp
  qed
qed

lemma set_join_chunks2: "set (join '':'' (chunks2 m)) \<subseteq> insert CHR '':'' (set m)"
proof (induction m rule: chunks2.induct)
  case 1
  then show ?case by simp
next
  case (2 a)
  then show ?case by simp
next
  case (3 a b r)
  then show ?case by (cases "chunks2 r") auto
qed

lemma dot_free: "CHR ''.'' \<notin> set (normalize_mac x)"
proof -
  have "CHR ''.'' \<notin> set (lower (remove_dots x))"
  proof
    assume "CHR ''.'' \<in> set (lower (remove_dots x))"
    then obtain c where c: "c \<in> set (remove_dots x)" "lower_char c = CHR ''.''"
      by (auto simp: lower_def)
    from c(2) have "c = CHR ''.''" by (simp add: lower_char_dot)
    with c(1) show False by (simp add: remove_dots_def)
  qed
  with set_join_chunks2 [of "lower (remove_dots x)"] show ?thesis
    by (auto simp: normalize_mac_def)
qed

lemma remove_dots_id: "CHR ''.'' \<notin> set s \<Longrightarrow> remove_dots s = s"
  by (auto simp: remove_dots_def filter_id_conv)

lemma length_normalize_mac:
  "length (normalize_mac x) = length (remove_dots x) + (length (remove_dots x) - 1) div 2"
  by (simp add: normalize_mac_def length_join_chunks2 length_lower)

lemma normalize_mac_short:
  assumes "length (remove_dots x) \<le> 2"
  shows "normalize_mac (normalize_mac x) = normalize_mac x"
proof -
  define m where "m = lower (remove_dots x)"
  from assms have "length m \<le> 2" by (simp add: m_def length_lower)
  then have "join '':'' (chunks2 m) = m"
    by (cases m rule: chunks2.cases) auto
  then have y: "normalize_mac x = m" by (simp add: normalize_mac_def m_def)
  have "remove_dots m = m" using dot_free [of x] y by (simp add: remove_dots_id)
  moreover have "lower m = m" by (simp add: m_def lower_idem)
  ultimately have "normalize_mac m = join '':'' (chunks2 m)" by (simp add: normalize_mac_def)
  with y \<open>join '':'' (chunks2 m) = m\<close> show ?thesis by simp
qed

lemma normalize_mac_long:
  assumes "2 < length (remove_dots x)"
  shows "normalize_mac (normalize_mac x) \<noteq> normalize_mac x"
proof -
  define y where "y = normalize_mac x"
  have "remove_dots y = y" by (simp add: y_def dot_free remove_dots_id)
  then have "length (normalize_mac y) = length y + (length y - 1) div 2"
    by (simp add: length_normalize_mac)
  moreover from assms have "2 < length y" by (simp add: y_def length_normalize_mac)
  ultimately have "length y < length (normalize_mac y)" by arith
  then show ?thesis unfolding y_def by auto
qed

text \<open>
  C2 (as amended). Neither canonicaliser is idempotent on every string. A second
  application of \<open>normalize_port\<close> changes nothing exactly when the first result does not
  begin with one of the long prefixes of the table, and a second application of
  \<open>normalize_mac\<close> changes nothing exactly when the input has at most two characters other
  than dots, so that the first result holds no colon.
\<close>

theorem canonicalizers_idempotent_iff:
  "(normalize_port (normalize_port x) = normalize_port x
      \<longleftrightarrow> \<not> starts_with_long (normalize_port x))
   \<and> (normalize_mac (normalize_mac y) = normalize_mac y \<longleftrightarrow> length (remove_dots y) \<le> 2)"
proof -
  have "normalize_port (normalize_port x) = normalize_port x
          \<longleftrightarrow> \<not> starts_with_long (normalize_port x)"
    using normalize_port_fixed [of x] normalize_port_moves [of x] by blast
  moreover have "normalize_mac (normalize_mac y) = normalize_mac y
          \<longleftrightarrow> length (remove_dots y) \<le> 2"
    using normalize_mac_short [of y] normalize_mac_long [of y] by (cases "length (remove_dots y) \<le> 2") auto
  ultimately show ?thesis by simp
qed

theorem canonicalizers_idempotent_iff_witness:
  "normalize_port (normalize_port ''GigabitEthernet0/01'') = normalize_port ''GigabitEthernet0/01''
   \<and> normalize_mac (normalize_mac ''A.b'') = normalize_mac ''A.b''"
proof -
  have 1: "\<not> starts_with_long (normalize_port ''GigabitEthernet0/01'')" by code_simp
  have 2: "length (remove_dots ''A.b'') \<le> 2" by code_simp
  from canonicalizers_idempotent_iff [of "''GigabitEthernet0/01''" "''A.b''"] 1 2
  show ?thesis by blast
qed

theorem canonicalizers_idempotent_counterexample:
  "normalize_port (normalize_port ''Ethernethernet1'') \<noteq> normalize_port ''Ethernethernet1''
   \<and> normalize_port ''Ethernethernet1'' = ''Ethernet1''
   \<and> normalize_port ''Ethernet1'' = ''Et1''
   \<and> normalize_mac (normalize_mac ''AABB.CCDD.EEFF'') \<noteq> normalize_mac ''AABB.CCDD.EEFF''
   \<and> normalize_mac ''AABB.CCDD.EEFF'' = ''aa:bb:cc:dd:ee:ff''
   \<and> normalize_mac ''aa:bb:cc:dd:ee:ff'' = ''aa::b:b::cc::d:d::ee::f:f''"
  by code_simp


section \<open>Properties of the vendor resolver\<close>





















section \<open>Properties of the MAC-table parser\<close>

lemma dds_keys:
  "set (map key (drop_dups_seen key seen rs)) = set (map key rs) - set seen"
  by (induction rs arbitrary: seen) auto

lemma dds_distinct: "distinct (map key (drop_dups_seen key seen rs))"
proof (induction rs arbitrary: seen)
  case Nil
  then show ?case by simp
next
  case (Cons r rs)
  have "key r \<notin> set (map key (drop_dups_seen key (key r # seen) rs))"
    by (simp only: dds_keys) simp
  with Cons show ?case by simp
qed

lemma dds_first:
  "r \<in> set (drop_dups_seen key seen rs) \<Longrightarrow> find (\<lambda>x. key x = key r) rs = Some r"
proof (induction rs arbitrary: seen)
  case Nil
  then show ?case by simp
next
  case (Cons a rs)
  show ?case
  proof (cases "key a \<in> set seen")
    case True
    with Cons.prems have in_rest: "r \<in> set (drop_dups_seen key seen rs)" by simp
    then have "key r \<in> set (map key (drop_dups_seen key seen rs))" by simp
    then have "key r \<notin> set seen" by (simp only: dds_keys) simp
    with True have "key a \<noteq> key r" by auto
    with Cons.IH [OF in_rest] show ?thesis by simp
  next
    case False
    with Cons.prems consider "r = a" | "r \<in> set (drop_dups_seen key (key a # seen) rs)"
      by auto
    then show ?thesis
    proof cases
      case 1
      then show ?thesis by simp
    next
      case 2
      then have "key r \<in> set (map key (drop_dups_seen key (key a # seen) rs))" by simp
      then have "key r \<noteq> key a" by (simp only: dds_keys) simp
      with Cons.IH [OF 2] show ?thesis by simp
    qed
  qed
qed

lemma rows_drop_duplicates:
  "cols \<noteq> [] \<Longrightarrow> rows (drop_duplicates key (DataFrame cols rs)) = drop_dups_seen key [] rs"
  by (cases rs) (simp_all add: drop_duplicates_def DataFrame_def empty_frame_def)

lemma mac_rows_ports:
  "map mac_port (fst (mac_rows web ms acc st))
     = map mac_port acc @ map (\<lambda>m. normalize_port (m ! 6)) ms"
  by (induction ms arbitrary: acc st) (simp_all add: Let_def split: prod.splits)

lemma rows_parse_mac_table:
  "rows (fst (parse_mac_table web output st))
     = drop_dups_seen mac_port [] (fst (mac_rows web (rx_findall True mac_re output) [] st))"
  by (simp add: parse_mac_table_def rows_drop_duplicates mac_cols_def split: prod.splits)

text \<open>
  C7. For every MAC-table text the frame that \<open>parse_mac_table\<close> returns has one row
  for a canonical port id at most; its ports are the canonical ids of the ports of the
  matches in the text; and each of its rows is the row of the first match in the text
  that names its port: the rows of the later matches for that port are dropped.
\<close>

theorem parse_mac_table_first_wins:
  "distinct (map mac_port (rows (fst (parse_mac_table web output st))))
   \<and> set (map mac_port (rows (fst (parse_mac_table web output st))))
       = set (map (\<lambda>m. normalize_port (m ! 6)) (rx_findall True mac_re output))
   \<and> (\<forall>r \<in> set (rows (fst (parse_mac_table web output st))).
         find (\<lambda>x. mac_port x = mac_port r)
              (fst (mac_rows web (rx_findall True mac_re output) [] st)) = Some r)"
proof -
  define found where "found = fst (mac_rows web (rx_findall True mac_re output) [] st)"
  have r: "rows (fst (parse_mac_table web output st)) = drop_dups_seen mac_port [] found"
    by (simp only: rows_parse_mac_table found_def)
  have p: "map mac_port found = map (\<lambda>m. normalize_port (m ! 6)) (rx_findall True mac_re output)"
    using mac_rows_ports [of web "rx_findall True mac_re output" "[]" st]
    by (simp add: found_def)
  have "distinct (map mac_port (drop_dups_seen mac_port [] found))" by (rule dds_distinct)
  moreover have "set (map mac_port (drop_dups_seen mac_port [] found)) = set (map mac_port found)"
    by (simp only: dds_keys) simp
  moreover have "\<forall>r \<in> set (drop_dups_seen mac_port [] found).
                   find (\<lambda>x. mac_port x = mac_port r) found = Some r"
    by (auto dest: dds_first)
  ultimately show ?thesis unfolding r p [symmetric] found_def [symmetric] by blast
qed

theorem parse_mac_table_first_wins_witness:
  "rows (fst (parse_mac_table (\<lambda>k m. NotOk)
      ''   1    aabb.ccdd.eeff    DYNAMIC     Gi1/0/1\<newline>  10    0011.2233.4455    STATIC      GigabitEthernet1/0/1\<newline>  10    0011.2233.4466    dynamic     Gi1/0/2''
      (start_state None)))
     = [\<lparr>mac_port = ''Gi1/0/1'', mac_address = ''aa:bb:cc:dd:ee:ff'', vendor = ''Unknown''\<rparr>,
        \<lparr>mac_port = ''Gi1/0/2'', mac_address = ''00:11:22:33:44:66'', vendor = ''Unknown''\<rparr>]
   \<and> find (\<lambda>x. mac_port x = ''Gi1/0/1'')
        (fst (mac_rows (\<lambda>k m. NotOk) (rx_findall True mac_re
           ''   1    aabb.ccdd.eeff    DYNAMIC     Gi1/0/1\<newline>  10    0011.2233.4455    STATIC      GigabitEthernet1/0/1\<newline>  10    0011.2233.4466    dynamic     Gi1/0/2'')
           [] (start_state None)))
       = Some \<lparr>mac_port = ''Gi1/0/1'', mac_address = ''aa:bb:cc:dd:ee:ff'', vendor = ''Unknown''\<rparr>"
proof -
  define T where "T = ''   1    aabb.ccdd.eeff    DYNAMIC     Gi1/0/1\<newline>  10    0011.2233.4455    STATIC      GigabitEthernet1/0/1\<newline>  10    0011.2233.4466    dynamic     Gi1/0/2''"
  have e: "rows (fst (parse_mac_table (\<lambda>k m. NotOk) T (start_state None)))
     = [\<lparr>mac_port = ''Gi1/0/1'', mac_address = ''aa:bb:cc:dd:ee:ff'', vendor = ''Unknown''\<rparr>,
        \<lparr>mac_port = ''Gi1/0/2'', mac_address = ''00:11:22:33:44:66'', vendor = ''Unknown''\<rparr>]"
    unfolding T_def by code_simp
  from parse_mac_table_first_wins [of "\<lambda>k m. NotOk" T "start_state None"]
  have "\<forall>r \<in> set (rows (fst (parse_mac_table (\<lambda>k m. NotOk) T (start_state None)))).
          find (\<lambda>x. mac_port x = mac_port r)
               (fst (mac_rows (\<lambda>k m. NotOk) (rx_findall True mac_re T) [] (start_state None))) = Some r"
    by blast
  with e have "find (\<lambda>x. mac_port x = ''Gi1/0/1'')
        (fst (mac_rows (\<lambda>k m. NotOk) (rx_findall True mac_re T) [] (start_state None)))
       = Some \<lparr>mac_port = ''Gi1/0/1'', mac_address = ''aa:bb:cc:dd:ee:ff'', vendor = ''Unknown''\<rparr>"
    by simp
  with e show ?thesis unfolding T_def by simp
qed


section \<open>Properties of the line parsers\<close>






















section \<open>Properties of the snapshot merge\<close>

lemma filter_key_distinct:
  "distinct (map kr bs) \<Longrightarrow>
   filter (\<lambda>b. kr b = k) bs = (case find (\<lambda>b. kr b = k) bs of None \<Rightarrow> [] | Some b \<Rightarrow> [b])"
proof (induction bs)
  case Nil
  then show ?case by simp
next
  case (Cons b bs)
  show ?case
  proof (cases "kr b = k")
    case True
    with Cons.prems have "k \<notin> set (map kr bs)" by auto
    then have "filter (\<lambda>b. kr b = k) bs = []" by (auto simp: filter_empty_conv)
    with True show ?thesis by simp
  next
    case False
    with Cons show ?thesis by simp
  qed
qed

lemma merge_left_distinct:
  assumes "''port'' \<in> set (columns l)" and "''port'' \<in> set (columns r)"
    and "distinct (map kr (rows r))"
  shows "merge_left kl kr l r
           = Inr (Frame (columns l @ filter (\<lambda>c. c \<noteq> ''port'') (columns r))
                   (map (\<lambda>a. (a, find (\<lambda>b. kr b = kl a) (rows r))) (rows l)))"
proof -
  have "(case filter (\<lambda>b. kr b = kl a) (rows r) of
           [] \<Rightarrow> [(a, None)]
         | bs \<Rightarrow> map (\<lambda>b. (a, Some b)) bs)
        = [(a, find (\<lambda>b. kr b = kl a) (rows r))]" for a
    by (simp add: filter_key_distinct [OF assms(3)] split: option.splits)
  then have "concat (map (\<lambda>a. case filter (\<lambda>b. kr b = kl a) (rows r) of
                               [] \<Rightarrow> [(a, None)]
                             | bs \<Rightarrow> map (\<lambda>b. (a, Some b)) bs) (rows l))
             = map (\<lambda>a. (a, find (\<lambda>b. kr b = kl a) (rows r))) (rows l)"
    by (induction "rows l") simp_all
  with assms(1,2) show ?thesis by (simp add: merge_left_def)
qed

lemma renormalize_columns: "columns (renormalize upd f) = columns f"
  by (simp add: renormalize_def)

lemma renormalize_rows:
  "''port'' \<in> set (columns f) \<Longrightarrow> rows (renormalize upd f) = map (upd normalize_port) (rows f)"
  by (cases f) (auto simp: renormalize_def empty_frame_def)

text \<open>
  C1 (as amended). When each of the four frames has its \<open>port\<close> column, and none of
  them has two rows with one canonical port id, the merge returns a snapshot that has
  exactly one row for each port of the status set, in the order of the status set: N rows
  for N distinct ports. With two records for one port in a joined set the rows of that
  port are multiplied, and \<open>main\<close> drops the repeated ports after it has put the devices
  together.
\<close>

theorem merge_one_row_per_port:
  assumes "''port'' \<in> set (columns df_if)" and "''port'' \<in> set (columns df_mac)"
    and "''port'' \<in> set (columns df_lldp)" and "''port'' \<in> set (columns df_last)"
    and "distinct (map (\<lambda>r. normalize_port (if_port r)) (rows df_if))"
    and "distinct (map (\<lambda>r. normalize_port (mac_port r)) (rows df_mac))"
    and "distinct (map (\<lambda>r. normalize_port (lldp_port r)) (rows df_lldp))"
    and "distinct (map (\<lambda>r. normalize_port (last_port r)) (rows df_last))"
  shows "\<exists>snap. merge_frames df_if df_mac df_lldp df_last = Inr snap
           \<and> map snapshot_port (rows snap) = map (\<lambda>r. normalize_port (if_port r)) (rows df_if)
           \<and> length (rows snap) = card (set (map (\<lambda>r. normalize_port (if_port r)) (rows df_if)))"
proof -
  define f_if where "f_if = renormalize if_port_update df_if"
  define f_mac where "f_mac = renormalize mac_port_update df_mac"
  define f_lldp where "f_lldp = renormalize lldp_port_update df_lldp"
  define f_last where "f_last = renormalize last_port_update df_last"
  have cols: "''port'' \<in> set (columns f_if)" "''port'' \<in> set (columns f_mac)"
    "''port'' \<in> set (columns f_lldp)" "''port'' \<in> set (columns f_last)"
    using assms(1-4) by (simp_all add: f_if_def f_mac_def f_lldp_def f_last_def renormalize_columns)
  have ports: "map if_port (rows f_if) = map (\<lambda>r. normalize_port (if_port r)) (rows df_if)"
    using assms(1) by (simp add: f_if_def renormalize_rows)
  have d_mac: "distinct (map mac_port (rows f_mac))"
    using assms(2,6) by (simp add: f_mac_def renormalize_rows comp_def)
  have d_lldp: "distinct (map lldp_port (rows f_lldp))"
    using assms(3,7) by (simp add: f_lldp_def renormalize_rows comp_def)
  have d_last: "distinct (map last_port (rows f_last))"
    using assms(4,8) by (simp add: f_last_def renormalize_rows comp_def)
  define c1 where "c1 = columns f_if @ filter (\<lambda>c. c \<noteq> ''port'') (columns f_mac)"
  define r1 where "r1 = map (\<lambda>a. (a, find (\<lambda>b. mac_port b = if_port a) (rows f_mac))) (rows f_if)"
  have m1: "merge_left if_port mac_port f_if f_mac = Inr (Frame c1 r1)"
    unfolding c1_def r1_def using cols(1,2) d_mac by (rule merge_left_distinct)
  have p1: "''port'' \<in> set (columns (Frame c1 r1))" using cols(1) by (simp add: c1_def)
  define c2 where "c2 = c1 @ filter (\<lambda>c. c \<noteq> ''port'') (columns f_lldp)"
  define r2 where
    "r2 = map (\<lambda>a. (a, find (\<lambda>b. lldp_port b = if_port (fst a)) (rows f_lldp))) r1"
  have m2: "merge_left (\<lambda>r. if_port (fst r)) lldp_port (Frame c1 r1) f_lldp = Inr (Frame c2 r2)"
    using merge_left_distinct [OF p1 cols(3) d_lldp, of "\<lambda>r. if_port (fst r)"]
    by (simp add: c2_def r2_def)
  have p2: "''port'' \<in> set (columns (Frame c2 r2))" using p1 by (simp add: c2_def)
  define c3 where "c3 = c2 @ filter (\<lambda>c. c \<noteq> ''port'') (columns f_last)"
  define r3 where
    "r3 = map (\<lambda>a. (a, find (\<lambda>b. last_port b = if_port (fst (fst a))) (rows f_last))) r2"
  have m3: "merge_left (\<lambda>r. if_port (fst (fst r))) last_port (Frame c2 r2) f_last
              = Inr (Frame c3 r3)"
    using merge_left_distinct [OF p2 cols(4) d_last, of "\<lambda>r. if_port (fst (fst r))"]
    by (simp add: c3_def r3_def)
  have result: "merge_frames df_if df_mac df_lldp df_last = Inr (Frame c3 r3)"
    by (simp add: merge_frames_def Let_def f_if_def [symmetric] f_mac_def [symmetric]
                  f_lldp_def [symmetric] f_last_def [symmetric] m1 m2 m3)
  have "map snapshot_port r3 = map if_port (rows f_if)"
    by (simp add: r3_def r2_def r1_def snapshot_port_def comp_def)
  with ports have sp: "map snapshot_port r3 = map (\<lambda>r. normalize_port (if_port r)) (rows df_if)"
    by simp
  then have "length r3 = length (map (\<lambda>r. normalize_port (if_port r)) (rows df_if))"
    by (metis length_map)
  also have "\<dots> = card (set (map (\<lambda>r. normalize_port (if_port r)) (rows df_if)))"
    using assms(5) by (rule distinct_card [symmetric])
  finally have "length r3 = card (set (map (\<lambda>r. normalize_port (if_port r)) (rows df_if)))" .
  with result sp show ?thesis by simp
qed

theorem merge_one_row_per_port_witness:
  "\<exists>snap. merge_frames example_if example_mac (lldp_frame []) example_last = Inr snap
      \<and> map snapshot_port (rows snap) = [''Gi1/0/1''] \<and> length (rows snap) = 1"
proof -
  have c: "''port'' \<in> set (columns example_if)" "''port'' \<in> set (columns example_mac)"
    "''port'' \<in> set (columns (lldp_frame []))" "''port'' \<in> set (columns example_last)"
    by (simp_all add: example_if_def example_mac_def example_last_def lldp_frame_def
                      DataFrame_def DataFrame_columns_def if_cols_def mac_cols_def lldp_cols_def
                      last_cols_def)
  have n: "normalize_port ''Gi1/0/1'' = ''Gi1/0/1''" by code_simp
  have d: "distinct (map (\<lambda>r. normalize_port (if_port r)) (rows example_if))"
    "distinct (map (\<lambda>r. normalize_port (mac_port r)) (rows example_mac))"
    "distinct (map (\<lambda>r. normalize_port (lldp_port r)) (rows (lldp_frame [])))"
    "distinct (map (\<lambda>r. normalize_port (last_port r)) (rows example_last))"
    by (simp_all add: example_if_def example_mac_def example_last_def lldp_frame_def
                      DataFrame_def DataFrame_columns_def)
  have p: "map (\<lambda>r. normalize_port (if_port r)) (rows example_if) = [''Gi1/0/1'']"
    by (simp add: example_if_def DataFrame_def n)
  from merge_one_row_per_port [OF c d] p show ?thesis by simp
qed

theorem merge_row_count_counterexample:
  "map_sum id (length \<circ> rows) (merge_frames example_if example_mac example_lldp example_last)
     = Inr 2
   \<and> length (remdups (map if_port (rows example_if))) = 1"
  by code_simp


end
